theory Spec2Isabelle
  imports Main "HOL-Library.Word"
begin

unbundle bit_operations_syntax

section \<open>Machine types and constants\<close>

text \<open>
  The C sources use fixed-width unsigned integers and bytes.  Multi-byte fields of
  Netlink messages are in host byte order; the model fixes the host as little-endian
  (x86).  Sizes (\<open>size_t\<close>) that count bytes actually held in a buffer are natural
  numbers: a buffer cannot hold as many bytes as \<open>size_t\<close> can count.  The errno values
  are those of Linux.
\<close>

type_synonym u8 = "8 word"
type_synonym u16 = "16 word"
type_synonym u32 = "32 word"
type_synonym u64 = "64 word"

definition EINTR :: int where "EINTR = 4"
definition EAGAIN :: int where "EAGAIN = 11"
definition ENOMEM :: int where "ENOMEM = 12"
definition EINVAL :: int where "EINVAL = 22"
definition EPROTO :: int where "EPROTO = 71"
definition ENOBUFS :: int where "ENOBUFS = 105"

lemmas errno_defs = EINTR_def EAGAIN_def ENOMEM_def EINVAL_def EPROTO_def ENOBUFS_def

section \<open>Netlink PID allocation (netlink.c, alloc_pid and free_pid)\<close>

definition SOCKET_BITS :: nat where "SOCKET_BITS = 10"
definition MAX_SOCKETS :: nat where "MAX_SOCKETS = 2 ^ SOCKET_BITS"
definition PROCESS_BITS :: nat where "PROCESS_BITS = 32 - SOCKET_BITS"
definition MAX_PROCESSES :: u32 where "MAX_PROCESSES = push_bit PROCESS_BITS 1"
definition PROCESS_MASK :: u32 where "PROCESS_MASK = MAX_PROCESSES - 1"

text \<open>
  \<open>avail_sockets\<close> is a static array of 32-bit words; the model reads it as a function
  from the array index to the word.  Both functions only index it with \<open>i / 32\<close> for
  \<open>i < MAX_SOCKETS\<close>, which is inside the array.  Bit \<open>i % 32\<close> of word \<open>i / 32\<close> is set
  when socket slot \<open>i\<close> is in use.
\<close>

type_synonym avail_sockets = "nat \<Rightarrow> u32"

text \<open>The test \<open>avail_sockets[i / 32] & (1u << (i % 32))\<close> that both functions make.\<close>

definition slot_in_use :: "avail_sockets \<Rightarrow> nat \<Rightarrow> bool" where
  "slot_in_use avail i = (avail (i div 32) AND push_bit (i mod 32) 1 \<noteq> 0)"

text \<open>
  The \<open>for\<close> loop of \<open>alloc_pid\<close>, from index \<open>i\<close> on.  The result is the return value,
  the PID stored through the out-parameter (if any) and the new bitmap.  \<open>upid\<close> is what
  \<open>getpid()\<close> returns.
\<close>

function alloc_pid_loop :: "u32 \<Rightarrow> avail_sockets \<Rightarrow> nat \<Rightarrow> int \<times> u32 option \<times> avail_sockets" where
  "alloc_pid_loop upid avail i =
     (if i < MAX_SOCKETS then
        if avail (i div 32) AND push_bit (i mod 32) 1 = 0 then
          (0,
           Some ((upid AND PROCESS_MASK) OR push_bit PROCESS_BITS (word_of_nat i)),
           avail(i div 32 := avail (i div 32) OR push_bit (i mod 32) 1))
        else alloc_pid_loop upid avail (Suc i)
      else (ENOBUFS, None, avail))"
  by pat_completeness auto
termination
  by (relation "measure (\<lambda>(upid, avail, i). MAX_SOCKETS - i)") auto

declare alloc_pid_loop.simps [simp del]

definition alloc_pid :: "u32 \<Rightarrow> avail_sockets \<Rightarrow> int \<times> u32 option \<times> avail_sockets" where
  "alloc_pid upid avail = alloc_pid_loop upid avail 0"

text \<open>\<open>free_pid\<close>: \<open>None\<close> is the failed assertion (the slot was not in use).\<close>

definition free_pid :: "u32 \<Rightarrow> avail_sockets \<Rightarrow> avail_sockets option" where
  "free_pid pid avail =
     (let sock = unat (drop_bit PROCESS_BITS pid) in
      if avail (sock div 32) AND push_bit (sock mod 32) 1 = 0 then None
      else Some (avail(sock div 32 := avail (sock div 32) AND NOT (push_bit (sock mod 32) 1))))"

text \<open>The slot that a PID names: its high \<open>SOCKET_BITS\<close> bits.\<close>

definition pid_slot :: "u32 \<Rightarrow> nat" where
  "pid_slot pid = unat (drop_bit PROCESS_BITS pid)"

section \<open>Bytes in memory\<close>

text \<open>
  \<open>le_bytes n w\<close> is the object representation of the integer \<open>w\<close> in \<open>n\<close> bytes
  (what \<open>memcpy(dst, &value, sizeof value)\<close> copies), \<open>le_word\<close> reads such a
  representation back (what \<open>*(TYPE *) p\<close> reads).
\<close>

fun le_bytes :: "nat \<Rightarrow> 'a::len word \<Rightarrow> u8 list" where
  "le_bytes 0 w = []"
| "le_bytes (Suc n) w = ucast w # le_bytes n (drop_bit 8 w)"

fun le_word :: "u8 list \<Rightarrow> 'a::len word" where
  "le_word [] = 0"
| "le_word (b # bs) = ucast b OR push_bit 8 (le_word bs)"

section \<open>Buffers (buffer.c is not among the sources)\<close>

text \<open>
  Modelled from the spec: \<open>struct buffer\<close> of buffer.c, which is not among the
  sources.  The spec describes a byte region with headroom, payload
  \<open>[data, data+size)\<close> and tailroom.  The model keeps the payload, as a list of bytes;
  a pointer into a buffer is the offset from \<open>data\<close>.  Head- and tailroom hold no byte
  that any function below reads before writing it, except through an out-of-bounds
  access, which the model reports as such.
\<close>

type_synonym buffer = "u8 list"

text \<open>Modelled from the spec: \<open>tail\<close> returns \<open>data + size\<close>.\<close>

definition buffer_tail :: "buffer \<Rightarrow> nat" where
  "buffer_tail b = length b"

text \<open>
  Modelled from the spec: \<open>at(offset, min_size)\<close> returns a pointer into the payload
  iff \<open>offset + min_size \<le> size\<close>, else null.
\<close>

definition buffer_at :: "buffer \<Rightarrow> nat \<Rightarrow> nat \<Rightarrow> nat option" where
  "buffer_at b offset min_size = (if offset + min_size \<le> length b then Some offset else None)"

text \<open>
  Modelled from the spec: \<open>put_uninit(n)\<close> grows tailroom if needed, advances size by
  \<open>n\<close>, and returns a pointer to the new region.  The new bytes are uninitialised:
  \<open>junk k\<close> is whatever the memory at payload offset \<open>k\<close> held before.
\<close>

definition buffer_put_uninit :: "(nat \<Rightarrow> u8) \<Rightarrow> buffer \<Rightarrow> nat \<Rightarrow> nat \<times> buffer" where
  "buffer_put_uninit junk b n = (length b, b @ map junk [length b ..< length b + n])"

text \<open>
  Modelled from the spec: \<open>pull(n)\<close> advances \<open>data\<close> past the first \<open>n\<close> bytes and
  decreases \<open>size\<close> by \<open>n\<close>; it asserts \<open>n \<le> size\<close> (\<open>None\<close> is the failed assertion).
\<close>

definition buffer_pull :: "buffer \<Rightarrow> nat \<Rightarrow> buffer option" where
  "buffer_pull b n = (if n \<le> length b then Some (drop n b) else None)"

text \<open>
  Reads and writes through a pointer.  A read that is not inside the payload is
  \<open>None\<close>.  \<open>store_bytes\<close> is \<open>memcpy\<close> into the buffer; every call below writes into a
  region that \<open>buffer_put_uninit\<close> has just returned.
\<close>

definition load_bytes :: "buffer \<Rightarrow> nat \<Rightarrow> nat \<Rightarrow> u8 list option" where
  "load_bytes b off n = (if off + n \<le> length b then Some (take n (drop off b)) else None)"

definition load_u8 :: "buffer \<Rightarrow> nat \<Rightarrow> u8 option" where
  "load_u8 b off = map_option le_word (load_bytes b off 1)"

definition load_u16 :: "buffer \<Rightarrow> nat \<Rightarrow> u16 option" where
  "load_u16 b off = map_option le_word (load_bytes b off 2)"

definition load_u32 :: "buffer \<Rightarrow> nat \<Rightarrow> u32 option" where
  "load_u32 b off = map_option le_word (load_bytes b off 4)"

definition load_u64 :: "buffer \<Rightarrow> nat \<Rightarrow> u64 option" where
  "load_u64 b off = map_option le_word (load_bytes b off 8)"

definition store_bytes :: "buffer \<Rightarrow> nat \<Rightarrow> u8 list \<Rightarrow> buffer" where
  "store_bytes b off bs = take off b @ bs @ drop (off + length bs) b"

definition store_u16 :: "buffer \<Rightarrow> nat \<Rightarrow> u16 \<Rightarrow> buffer" where
  "store_u16 b off v = store_bytes b off (le_bytes 2 v)"

definition store_u32 :: "buffer \<Rightarrow> nat \<Rightarrow> u32 \<Rightarrow> buffer" where
  "store_u32 b off v = store_bytes b off (le_bytes 4 v)"

section \<open>Netlink message construction (netlink.c)\<close>

text \<open>
  Constants and macros of the system headers linux/netlink.h and linux/genetlink.h:
  \<open>struct nlmsghdr\<close> is \<open>{u32 nlmsg_len; u16 nlmsg_type; u16 nlmsg_flags; u32 nlmsg_seq;
  u32 nlmsg_pid}\<close>, \<open>struct genlmsghdr\<close> is \<open>{u8 cmd; u8 version; u16 reserved}\<close>,
  \<open>struct nlattr\<close> is \<open>{u16 nla_len; u16 nla_type}\<close>, and the two \<open>ALIGN\<close> macros round
  up to a multiple of 4.
\<close>

definition NLMSG_HDRLEN :: nat where "NLMSG_HDRLEN = 16"
definition GENL_HDRLEN :: nat where "GENL_HDRLEN = 4"
definition NLA_HDRLEN :: nat where "NLA_HDRLEN = 4"
definition NLMSG_ALIGN :: "nat \<Rightarrow> nat" where "NLMSG_ALIGN n = (n + 3) div 4 * 4"
definition NLA_ALIGN :: "nat \<Rightarrow> nat" where "NLA_ALIGN n = (n + 3) div 4 * 4"
definition UINT16_MAX :: nat where "UINT16_MAX = 65535"
definition SIZE_MAX :: nat where "SIZE_MAX = 18446744073709551615"
definition NLMSG_ERROR :: u16 where "NLMSG_ERROR = 2"
definition NLM_F_ACK :: u16 where "NLM_F_ACK = 4"

text \<open>\<open>struct nl_sock\<close>.\<close>

record nl_sock =
  sock_fd :: int
  sock_pid :: u32

text \<open>
  \<open>nl_msg_put_uninit\<close>: appends \<open>size\<close> bytes and the padding up to \<open>NLMSG_ALIGN\<close>,
  zeroes the padding, and returns the pointer to the new bytes with the grown buffer.
\<close>

definition nl_msg_put_uninit :: "(nat \<Rightarrow> u8) \<Rightarrow> buffer \<Rightarrow> nat \<Rightarrow> nat \<times> buffer" where
  "nl_msg_put_uninit junk msg sz =
     (let pad = NLMSG_ALIGN sz - sz;
          (p, msg') = buffer_put_uninit junk msg (sz + pad)
      in (p, if pad \<noteq> 0 then store_bytes msg' (p + sz) (replicate pad 0) else msg'))"

definition nl_msg_put :: "(nat \<Rightarrow> u8) \<Rightarrow> buffer \<Rightarrow> u8 list \<Rightarrow> buffer" where
  "nl_msg_put junk msg dat =
     (let (p, msg') = nl_msg_put_uninit junk msg (length dat) in store_bytes msg' p dat)"

text \<open>
  \<open>nl_msg_put_nlmsghdr\<close>: \<open>None\<close> is the failed assertion \<open>msg->size == 0\<close>.  The static
  counter \<open>next_seq\<close> is passed in and returned.  \<open>nl_msg_reserve\<close> only grows tailroom.
  The \<open>uint32_t\<close> arguments \<open>type\<close> and \<open>flags\<close> are stored into 16-bit fields.
\<close>

definition nl_msg_put_nlmsghdr ::
  "(nat \<Rightarrow> u8) \<Rightarrow> u32 \<Rightarrow> buffer \<Rightarrow> nl_sock \<Rightarrow> nat \<Rightarrow> u32 \<Rightarrow> u32 \<Rightarrow> (u32 \<times> buffer) option" where
  "nl_msg_put_nlmsghdr junk next_seq msg sock expected_payload ty flags =
     (if length msg \<noteq> 0 then None
      else
        let (nlmsghdr, m0) = nl_msg_put_uninit junk msg NLMSG_HDRLEN;
            m1 = store_u32 m0 nlmsghdr 0;
            m2 = store_u16 m1 (nlmsghdr + 4) (ucast ty);
            m3 = store_u16 m2 (nlmsghdr + 6) (ucast flags);
            m4 = store_u32 m3 (nlmsghdr + 8) (next_seq + 1);
            m5 = store_u32 m4 (nlmsghdr + 12) (sock_pid sock)
        in Some (next_seq + 1, m5))"

text \<open>
  \<open>nl_msg_put_genlmsghdr\<close>; its assertion \<open>msg->size == NLMSG_HDRLEN\<close> is the second
  \<open>None\<close>.  \<open>family\<close> is an \<open>int\<close> passed as the \<open>uint32_t type\<close>.
\<close>

definition nl_msg_put_genlmsghdr ::
  "(nat \<Rightarrow> u8) \<Rightarrow> u32 \<Rightarrow> buffer \<Rightarrow> nl_sock \<Rightarrow> nat \<Rightarrow> u32 \<Rightarrow> u32 \<Rightarrow> u8 \<Rightarrow> u8
     \<Rightarrow> (u32 \<times> buffer) option" where
  "nl_msg_put_genlmsghdr junk next_seq msg sock expected_payload family flags cmd version =
     (case nl_msg_put_nlmsghdr junk next_seq msg sock (GENL_HDRLEN + expected_payload) family flags of
        None \<Rightarrow> None
      | Some (seq', m) \<Rightarrow>
          if length m \<noteq> NLMSG_HDRLEN then None
          else
            let (genlmsghdr, m0) = nl_msg_put_uninit junk m GENL_HDRLEN;
                m1 = store_bytes m0 genlmsghdr [cmd];
                m2 = store_bytes m1 (genlmsghdr + 1) [version];
                m3 = store_u16 m2 (genlmsghdr + 2) 0
            in Some (seq', m3))"

text \<open>
  \<open>nl_msg_put_unspec_uninit\<close>: returns the pointer to the payload (\<open>nla + 1\<close>, that is
  \<open>NLA_HDRLEN\<close> bytes after the attribute header).  \<open>None\<close> is the failed assertion
  \<open>NLA_ALIGN(total_size) <= UINT16_MAX\<close>.
\<close>

definition nl_msg_put_unspec_uninit ::
  "(nat \<Rightarrow> u8) \<Rightarrow> buffer \<Rightarrow> u16 \<Rightarrow> nat \<Rightarrow> (nat \<times> buffer) option" where
  "nl_msg_put_unspec_uninit junk msg ty sz =
     (let total_size = NLA_HDRLEN + sz;
          (nla, m0) = nl_msg_put_uninit junk msg total_size
      in if \<not> NLA_ALIGN total_size \<le> UINT16_MAX then None
         else
           let m1 = store_u16 m0 nla (word_of_nat total_size);
               m2 = store_u16 m1 (nla + 2) ty
           in Some (nla + NLA_HDRLEN, m2))"

definition nl_msg_put_unspec :: "(nat \<Rightarrow> u8) \<Rightarrow> buffer \<Rightarrow> u16 \<Rightarrow> u8 list \<Rightarrow> buffer option" where
  "nl_msg_put_unspec junk msg ty dat =
     (case nl_msg_put_unspec_uninit junk msg ty (length dat) of
        None \<Rightarrow> None
      | Some (p, m) \<Rightarrow> Some (store_bytes m p dat))"

definition nl_msg_put_flag :: "(nat \<Rightarrow> u8) \<Rightarrow> buffer \<Rightarrow> u16 \<Rightarrow> buffer option" where
  "nl_msg_put_flag junk msg ty = nl_msg_put_unspec junk msg ty []"

definition nl_msg_put_u8 :: "(nat \<Rightarrow> u8) \<Rightarrow> buffer \<Rightarrow> u16 \<Rightarrow> u8 \<Rightarrow> buffer option" where
  "nl_msg_put_u8 junk msg ty v = nl_msg_put_unspec junk msg ty (le_bytes 1 v)"

definition nl_msg_put_u16 :: "(nat \<Rightarrow> u8) \<Rightarrow> buffer \<Rightarrow> u16 \<Rightarrow> u16 \<Rightarrow> buffer option" where
  "nl_msg_put_u16 junk msg ty v = nl_msg_put_unspec junk msg ty (le_bytes 2 v)"

definition nl_msg_put_u32 :: "(nat \<Rightarrow> u8) \<Rightarrow> buffer \<Rightarrow> u16 \<Rightarrow> u32 \<Rightarrow> buffer option" where
  "nl_msg_put_u32 junk msg ty v = nl_msg_put_unspec junk msg ty (le_bytes 4 v)"

definition nl_msg_put_u64 :: "(nat \<Rightarrow> u8) \<Rightarrow> buffer \<Rightarrow> u16 \<Rightarrow> u64 \<Rightarrow> buffer option" where
  "nl_msg_put_u64 junk msg ty v = nl_msg_put_unspec junk msg ty (le_bytes 8 v)"

text \<open>
  \<open>nl_msg_put_string\<close>: the payload is the string with its terminating NUL
  (\<open>strlen(value) + 1\<close> bytes).  A C string holds no NUL before its end.
\<close>

definition nl_msg_put_string :: "(nat \<Rightarrow> u8) \<Rightarrow> buffer \<Rightarrow> u16 \<Rightarrow> u8 list \<Rightarrow> buffer option" where
  "nl_msg_put_string junk msg ty v = nl_msg_put_unspec junk msg ty (takeWhile (\<lambda>c. c \<noteq> 0) v @ [0])"

text \<open>
  \<open>nl_msg_put_nested\<close>: finalises \<open>nlmsg_len\<close> of the nested message, then embeds it.
  \<open>nl_msg_nlmsghdr\<close> is \<open>buffer_at_assert(msg, 0, NLMSG_HDRLEN)\<close>; its failure is \<open>None\<close>.
\<close>

definition nl_msg_put_nested ::
  "(nat \<Rightarrow> u8) \<Rightarrow> buffer \<Rightarrow> u16 \<Rightarrow> buffer \<Rightarrow> (buffer \<times> buffer) option" where
  "nl_msg_put_nested junk msg ty nested_msg =
     (case buffer_at nested_msg 0 NLMSG_HDRLEN of
        None \<Rightarrow> None
      | Some h \<Rightarrow>
          let nested' = store_u32 nested_msg h (word_of_nat (length nested_msg)) in
          (case nl_msg_put_unspec junk msg ty nested' of
             None \<Rightarrow> None
           | Some m \<Rightarrow> Some (m, nested')))"

text \<open>
  The messages that the put operations build: starting from an empty buffer, any
  sequence of the operations above that return.  The typed helpers \<open>nl_msg_put_flag\<close>,
  \<open>nl_msg_put_u8\<close> ... \<open>nl_msg_put_string\<close>, \<open>nl_msg_put_nested\<close> are calls of
  \<open>nl_msg_put_unspec\<close>.
\<close>

inductive nl_built :: "buffer \<Rightarrow> bool" where
  built_empty: "nl_built []"
| built_nlmsghdr:
    "nl_msg_put_nlmsghdr junk next_seq [] sock expected_payload ty flags = Some (s, m) \<Longrightarrow> nl_built m"
| built_genlmsghdr:
    "nl_msg_put_genlmsghdr junk next_seq [] sock expected_payload family flags cmd version = Some (s, m)
       \<Longrightarrow> nl_built m"
| built_put: "nl_built m \<Longrightarrow> nl_built (nl_msg_put junk m dat)"
| built_put_uninit: "nl_built m \<Longrightarrow> nl_built (snd (nl_msg_put_uninit junk m n))"
| built_put_unspec_uninit:
    "nl_built m \<Longrightarrow> nl_msg_put_unspec_uninit junk m ty n = Some (p, m') \<Longrightarrow> nl_built m'"
| built_put_unspec: "nl_built m \<Longrightarrow> nl_msg_put_unspec junk m ty dat = Some m' \<Longrightarrow> nl_built m'"

section \<open>Netlink attribute access and parsing (netlink.c)\<close>

text \<open>
  The attribute getters take the message and a pointer to a \<open>struct nlattr\<close> inside it
  (\<open>None\<close> is the null pointer).  The result \<open>None\<close> stands for every way the C
  function yields no value: a null pointer dereference, a failed assertion, or a read
  that is not inside the payload.
\<close>

definition nl_attr_get_unspec :: "buffer \<Rightarrow> nat option \<Rightarrow> nat \<Rightarrow> nat option" where
  "nl_attr_get_unspec msg nla sz =
     (case nla of
        None \<Rightarrow> None
      | Some a \<Rightarrow>
          (case load_u16 msg a of
             None \<Rightarrow> None
           | Some nla_len \<Rightarrow>
               if unat nla_len \<ge> NLA_HDRLEN + sz then Some (a + NLA_HDRLEN) else None))"

definition nl_attr_get_u8 :: "buffer \<Rightarrow> nat option \<Rightarrow> u8 option" where
  "nl_attr_get_u8 msg nla =
     (case nl_attr_get_unspec msg nla 1 of None \<Rightarrow> None | Some p \<Rightarrow> load_u8 msg p)"

definition nl_attr_get_u16 :: "buffer \<Rightarrow> nat option \<Rightarrow> u16 option" where
  "nl_attr_get_u16 msg nla =
     (case nl_attr_get_unspec msg nla 2 of None \<Rightarrow> None | Some p \<Rightarrow> load_u16 msg p)"

definition nl_attr_get_u32 :: "buffer \<Rightarrow> nat option \<Rightarrow> u32 option" where
  "nl_attr_get_u32 msg nla =
     (case nl_attr_get_unspec msg nla 4 of None \<Rightarrow> None | Some p \<Rightarrow> load_u32 msg p)"

definition nl_attr_get_u64 :: "buffer \<Rightarrow> nat option \<Rightarrow> u64 option" where
  "nl_attr_get_u64 msg nla =
     (case nl_attr_get_unspec msg nla 8 of None \<Rightarrow> None | Some p \<Rightarrow> load_u64 msg p)"

text \<open>
  Modelled from the spec: \<open>enum nl_attr_type\<close> and \<open>struct nl_policy\<close> of netlink.h,
  which is not among the sources.  The constructors are the designators of
  \<open>attr_len_range\<close> in netlink.c and the kinds the spec lists, the fields are those
  \<open>nl_policy_parse\<close> reads.
\<close>

datatype nl_attr_type =
  NL_A_NO_ATTR | NL_A_UNSPEC | NL_A_U8 | NL_A_U16 | NL_A_U32 | NL_A_U64
  | NL_A_STRING | NL_A_FLAG | NL_A_NESTED

record nl_policy =
  pol_type :: nl_attr_type
  pol_min_len :: nat
  pol_max_len :: nat
  pol_optional :: bool

fun attr_len_range :: "nl_attr_type \<Rightarrow> nat \<times> nat" where
  "attr_len_range NL_A_U8 = (1, 1)"
| "attr_len_range NL_A_U16 = (2, 2)"
| "attr_len_range NL_A_U32 = (4, 4)"
| "attr_len_range NL_A_U64 = (8, 8)"
| "attr_len_range NL_A_STRING = (1, SIZE_MAX)"
| "attr_len_range NL_A_FLAG = (0, SIZE_MAX)"
| "attr_len_range NL_A_NESTED = (NLMSG_HDRLEN, SIZE_MAX)"
| "attr_len_range _ = (0, SIZE_MAX)"

text \<open>
  What a call of \<open>nl_policy_parse\<close> does: it returns true with \<open>attrs[]\<close> filled in,
  returns false, stops at the failed assertion \<open>n_required > 0\<close>, or reads memory that
  is not inside the message payload (undefined behaviour in C).
\<close>

datatype parse_result =
  PARSE_OK "nat option list" | PARSE_FAIL | PARSE_ABORT | PARSE_OOB

text \<open>One pass through the body of the \<open>while\<close> loop: go on, or leave the function.\<close>

datatype parse_step = Next nat "nat option list" nat | Stop parse_result

text \<open>The first \<open>for\<close> loop: the number of required attributes.\<close>

fun nl_count_required :: "nl_policy list \<Rightarrow> nat" where
  "nl_count_required [] = 0"
| "nl_count_required (pl # policy) =
     (if pol_type pl \<noteq> NL_A_NO_ATTR \<and> pol_type pl \<noteq> NL_A_FLAG \<and> \<not> pol_optional pl
      then Suc (nl_count_required policy) else nl_count_required policy)"

text \<open>
  The two checks on a string attribute: the byte \<open>((char *) nla)[nla_len - 1]\<close> must be
  NUL, and \<open>memchr(nla + 1, 0, len - 1)\<close> must find none.  \<open>None\<close>: both passed.
\<close>

definition nl_string_check :: "buffer \<Rightarrow> nat \<Rightarrow> nat \<Rightarrow> nat \<Rightarrow> parse_result option" where
  "nl_string_check msg p nla_len len =
     (case load_u8 msg (p + nla_len - 1) of
        None \<Rightarrow> Some PARSE_OOB
      | Some c \<Rightarrow>
          if c \<noteq> 0 then Some PARSE_FAIL
          else
            (case load_bytes msg (p + NLA_HDRLEN) (len - 1) of
               None \<Rightarrow> Some PARSE_OOB
             | Some bs \<Rightarrow> if 0 \<in> set bs then Some PARSE_FAIL else None))"

definition nl_policy_parse_attr ::
  "buffer \<Rightarrow> nl_policy list \<Rightarrow> nat \<Rightarrow> nat option list \<Rightarrow> nat \<Rightarrow> parse_step" where
  "nl_policy_parse_attr msg policy p attrs n_required =
     (case load_u16 msg p of
        None \<Rightarrow> Stop PARSE_OOB
      | Some nla_len \<Rightarrow>
          if unat nla_len < NLA_HDRLEN then Stop PARSE_FAIL
          else
            let len = unat nla_len - NLA_HDRLEN;
                aligned_len = NLA_ALIGN len
            in
              if aligned_len > buffer_tail msg - p then Stop PARSE_FAIL
              else
                (case load_u16 msg (p + 2) of
                   None \<Rightarrow> Stop PARSE_OOB
                 | Some nla_type \<Rightarrow>
                     let ty = unat nla_type;
                         p' = p + NLA_ALIGN (unat nla_len)
                     in
                       if ty < length policy \<and> pol_type (policy ! ty) \<noteq> NL_A_NO_ATTR then
                         let pl = policy ! ty;
                             min_len = (if pol_min_len pl \<noteq> 0 then pol_min_len pl
                                        else fst (attr_len_range (pol_type pl)));
                             max_len = (if pol_max_len pl \<noteq> 0 then pol_max_len pl
                                        else snd (attr_len_range (pol_type pl)))
                         in
                           if len < min_len \<or> len > max_len then Stop PARSE_FAIL
                           else
                             (case (if pol_type pl = NL_A_STRING
                                    then nl_string_check msg p (unat nla_len) len else None) of
                                Some r \<Rightarrow> Stop r
                              | None \<Rightarrow>
                                  if \<not> pol_optional pl \<and> attrs ! ty = None then
                                    if \<not> n_required > 0 then Stop PARSE_ABORT
                                    else Next p' (attrs[ty := Some p]) (n_required - 1)
                                  else Next p' (attrs[ty := Some p]) n_required)
                       else Next p' attrs n_required))"

function nl_policy_parse_loop ::
  "buffer \<Rightarrow> nl_policy list \<Rightarrow> nat \<Rightarrow> nat option list \<Rightarrow> nat \<Rightarrow> parse_result" where
  "nl_policy_parse_loop msg policy p attrs n_required =
     (if p < buffer_tail msg then
        (case nl_policy_parse_attr msg policy p attrs n_required of
           Stop r \<Rightarrow> r
         | Next p' attrs' n' \<Rightarrow> nl_policy_parse_loop msg policy p' attrs' n')
      else if n_required \<noteq> 0 then PARSE_FAIL
      else PARSE_OK attrs)"
  by pat_completeness auto
termination
proof (relation "measure (\<lambda>(msg, policy, p, attrs, n_required). buffer_tail msg - p)")
  show "wf (measure (\<lambda>(msg, policy, p, attrs, n_required). buffer_tail msg - p))"
    by simp
next
  fix msg :: buffer and policy p attrs n_required x p' attrs' n'
  assume lt: "p < buffer_tail msg"
    and st: "nl_policy_parse_attr msg policy p attrs n_required = Next p' attrs' n'"
  have "case load_u16 msg p of None \<Rightarrow> False
        | Some l \<Rightarrow> 4 \<le> unat l \<and> p' = p + NLA_ALIGN (unat l)"
    using st
    by (auto simp: nl_policy_parse_attr_def Let_def NLA_HDRLEN_def
             split: option.splits if_splits)
  then have "p < p'" by (auto simp: NLA_ALIGN_def split: option.splits)
  then show "((msg, policy, p', attrs', n'), (msg, policy, p, attrs, n_required))
       \<in> measure (\<lambda>(msg, policy, p, attrs, n_required). buffer_tail msg - p)"
    using lt by simp
qed

declare nl_policy_parse_loop.simps [simp del]

text \<open>
  \<open>nl_policy_parse\<close>: \<open>n_attrs\<close> is the length of the policy array; \<open>attrs[]\<close> starts as
  all null.  The walk starts at \<open>buffer_at(msg, NLMSG_HDRLEN + GENL_HDRLEN, 0)\<close>.
\<close>

definition nl_policy_parse :: "buffer \<Rightarrow> nl_policy list \<Rightarrow> parse_result" where
  "nl_policy_parse msg policy =
     (let attrs = replicate (length policy) None;
          n_required = nl_count_required policy
      in
        case buffer_at msg (NLMSG_HDRLEN + GENL_HDRLEN) 0 of
          None \<Rightarrow> PARSE_FAIL
        | Some p \<Rightarrow> nl_policy_parse_loop msg policy p attrs n_required)"

text \<open>
  The attribute stream that the \<open>while\<close> loop walks from \<open>p\<close> on: the offsets at which it
  reads an attribute header, following \<open>p += NLA_ALIGN(nla->nla_len)\<close> and ending where
  the loop ends or cannot go on.
\<close>

function nl_attr_walk :: "buffer \<Rightarrow> nat \<Rightarrow> nat list" where
  "nl_attr_walk msg p =
     (if p < buffer_tail msg then
        (case load_u16 msg p of
           None \<Rightarrow> [p]
         | Some nla_len \<Rightarrow>
             if unat nla_len < NLA_HDRLEN then [p]
             else p # nl_attr_walk msg (p + NLA_ALIGN (unat nla_len)))
      else [])"
  by pat_completeness auto
termination
  by (relation "measure (\<lambda>(msg, p). buffer_tail msg - p)")
     (auto simp: NLA_ALIGN_def NLA_HDRLEN_def)

declare nl_attr_walk.simps [simp del]

text \<open>The occurrences of attribute type \<open>t\<close> in the stream of a message.\<close>

definition nl_attr_occurrences :: "buffer \<Rightarrow> nat \<Rightarrow> nat list" where
  "nl_attr_occurrences msg t =
     filter (\<lambda>q. map_option unat (load_u16 msg (q + 2)) = Some t)
       (nl_attr_walk msg (NLMSG_HDRLEN + GENL_HDRLEN))"

section \<open>TCP virtual connections (vconn-tcp.c)\<close>

text \<open>
  The operating system's side of a non-blocking stream socket, as far as \<open>tcp_recv\<close>,
  \<open>tcp_send\<close> and \<open>tcp_postpoll\<close> see it.  \<open>rx_pending\<close> holds the bytes the peer has
  delivered and no \<open>read\<close> has returned yet, \<open>rx_closed\<close> says that the peer has shut
  down; \<open>tx_space\<close> is the free space of the send buffer, \<open>tx_wire\<close> the bytes written
  so far in order, and \<open>tx_error\<close> a pending error that the next \<open>write\<close> reports.
\<close>

record tcp_socket =
  rx_pending :: "u8 list"
  rx_closed :: bool
  tx_space :: nat
  tx_wire :: "u8 list"
  tx_error :: "int option"

text \<open>
  \<open>read(fd, buf, n)\<close>: \<open>Inr bs\<close> is the return value \<open>length bs\<close> with the bytes stored,
  \<open>Inl e\<close> is the return value -1 with \<open>errno = e\<close>.  A read of 0 bytes returns 0; with
  nothing pending it returns 0 at end of stream and fails with \<open>EAGAIN\<close> otherwise.
\<close>

definition sys_read :: "tcp_socket \<Rightarrow> nat \<Rightarrow> (int + u8 list) \<times> tcp_socket" where
  "sys_read s n =
     (if n = 0 then (Inr [], s)
      else if rx_pending s \<noteq> [] then
        (Inr (take n (rx_pending s)), s\<lparr>rx_pending := drop n (rx_pending s)\<rparr>)
      else if rx_closed s then (Inr [], s)
      else (Inl EAGAIN, s))"

text \<open>
  \<open>write(fd, buf, n)\<close>: \<open>Inr k\<close> is the return value \<open>k\<close>, the number of bytes taken,
  which is what fits into the send buffer; \<open>Inl e\<close> is -1 with \<open>errno = e\<close>.
\<close>

definition sys_write :: "tcp_socket \<Rightarrow> u8 list \<Rightarrow> (int + nat) \<times> tcp_socket" where
  "sys_write s bs =
     (case tx_error s of
        Some e \<Rightarrow> (Inl e, s)
      | None \<Rightarrow>
          if bs = [] then (Inr 0, s)
          else if tx_space s = 0 then (Inl EAGAIN, s)
          else
            let k = min (tx_space s) (length bs)
            in (Inr k, s\<lparr>tx_space := tx_space s - k, tx_wire := tx_wire s @ take k bs\<rparr>))"

text \<open>The environment drains the send buffer: \<open>c\<close> bytes of space are free again.\<close>

definition sock_drained :: "nat \<Rightarrow> tcp_socket \<Rightarrow> tcp_socket" where
  "sock_drained c s = s\<lparr>tx_space := c\<rparr>"

text \<open>
  \<open>struct tcp_vconn\<close>: the descriptor (here the socket it names) and the two nullable
  buffers.
\<close>

record tcp_vconn =
  tcp_fd :: tcp_socket
  rxbuf :: "buffer option"
  txbuf :: "buffer option"

text \<open>
  Modelled from the spec: \<open>struct ofp_header\<close> of openflow.h, which is not among the
  sources.  The spec gives the header as 8 bytes with the 16-bit length, in network
  byte order, in its third and fourth byte; \<open>OFP_HEADER_LEN\<close> is
  \<open>sizeof(struct ofp_header)\<close>.  \<open>EOF\<close> is the constant of stdio.h; \<open>POLLOUT\<close> and
  \<open>POLLERR\<close> are those of poll.h.
\<close>

definition OFP_HEADER_LEN :: nat where "OFP_HEADER_LEN = 8"
definition EOF :: int where "EOF = - 1"
definition POLLOUT :: u16 where "POLLOUT = 4"
definition POLLERR :: u16 where "POLLERR = 8"

text \<open>
  Modelled from the spec: \<open>ntohs(oh->length)\<close> of the header at the start of \<open>rx\<close>.
\<close>

definition ofp_length :: "buffer \<Rightarrow> nat" where
  "ofp_length rx = unat (rx ! 2) * 256 + unat (rx ! 3)"

text \<open>
  One pass through \<open>tcp_recv\<close> from the label \<open>again\<close> on, with \<open>rx\<close> the buffer that
  \<open>tcp->rxbuf\<close> points to: either \<open>goto again\<close> or a return.  A return gives the return
  value, the buffer stored through \<open>bufferp\<close> (if any), the socket and the new
  \<open>tcp->rxbuf\<close>.  \<open>ofp_length\<close> is only read when \<open>rx\<close> holds the whole header.
  \<open>want_bytes = length - rx->size\<close> is a \<open>size_t\<close> subtraction and wraps around (64
  bits) if \<open>rx\<close> held more than \<open>length\<close> bytes.
\<close>

datatype recv_step =
  Again tcp_socket buffer
  | Done "(int \<times> buffer option) \<times> tcp_socket \<times> buffer option"

definition tcp_recv_step :: "tcp_socket \<Rightarrow> buffer \<Rightarrow> recv_step" where
  "tcp_recv_step s rx =
     (if OFP_HEADER_LEN \<le> length rx \<and> ofp_length rx < OFP_HEADER_LEN
      then Done ((EPROTO, None), s, Some rx)
      else
        let want_bytes =
              (if OFP_HEADER_LEN > length rx then OFP_HEADER_LEN - length rx
               else if length rx \<le> ofp_length rx then ofp_length rx - length rx
               else 2 ^ 64 - (length rx - ofp_length rx))
        in
          case sys_read s want_bytes of
            (Inr bs, s') \<Rightarrow>
              if length bs > 0 then
                let rx' = rx @ bs in
                  if length bs = want_bytes then
                    if length rx' > OFP_HEADER_LEN then Done ((0, Some rx'), s', None)
                    else Again s' rx'
                  else Done ((EAGAIN, None), s', Some rx')
              else Done ((if length rx \<noteq> 0 then EPROTO else EOF, None), s', Some rx)
          | (Inl e, s') \<Rightarrow> Done ((e, None), s', Some rx))"

function tcp_recv_again ::
  "tcp_socket \<Rightarrow> buffer \<Rightarrow> (int \<times> buffer option) \<times> tcp_socket \<times> buffer option" where
  "tcp_recv_again s rx =
     (case tcp_recv_step s rx of
        Done r \<Rightarrow> r
      | Again s' rx' \<Rightarrow> tcp_recv_again s' rx')"
  by pat_completeness auto
termination
proof (relation "measure (\<lambda>(s, rx). OFP_HEADER_LEN - length rx)")
  show "wf (measure (\<lambda>(s, rx). OFP_HEADER_LEN - length rx))" by simp
next
  fix s rx s' rx'
  assume "tcp_recv_step s rx = Again s' rx'"
  then have "length rx < length rx' \<and> length rx' \<le> OFP_HEADER_LEN"
    by (auto simp: tcp_recv_step_def Let_def split: if_splits prod.splits sum.splits)
  then have "OFP_HEADER_LEN - length rx' < OFP_HEADER_LEN - length rx"
    by arith
  then show "((s', rx'), (s, rx)) \<in> measure (\<lambda>(s, rx). OFP_HEADER_LEN - length rx)"
    by simp
qed

declare tcp_recv_again.simps [simp del]

text \<open>
  \<open>tcp_recv\<close>: a null \<open>tcp->rxbuf\<close> is replaced by a new, empty buffer first.
\<close>

definition tcp_recv :: "tcp_vconn \<Rightarrow> (int \<times> buffer option) \<times> tcp_vconn" where
  "tcp_recv tcp =
     (let rx = (case rxbuf tcp of None \<Rightarrow> [] | Some b \<Rightarrow> b);
          (r, s', rxbuf') = tcp_recv_again (tcp_fd tcp) rx
      in (r, tcp\<lparr>tcp_fd := s', rxbuf := rxbuf'\<rparr>))"

text \<open>
  \<open>tcp_send\<close>: the return value and the connection afterwards; \<open>None\<close> is the failed
  assertion of \<open>buffer_pull\<close>.  A \<open>write\<close> that returns -1 cannot equal \<open>buffer->size\<close>.
  On success with a complete write the buffer is deleted; on a short write or \<open>EAGAIN\<close>
  it is staged in \<open>tcp->txbuf\<close>, pulled by the bytes written.
\<close>

definition tcp_send :: "tcp_vconn \<Rightarrow> buffer \<Rightarrow> (int \<times> tcp_vconn) option" where
  "tcp_send tcp b =
     (if txbuf tcp \<noteq> None then Some (EAGAIN, tcp)
      else
        case sys_write (tcp_fd tcp) b of
          (Inr k, s') \<Rightarrow>
            if k = length b then Some (0, tcp\<lparr>tcp_fd := s'\<rparr>)
            else if k > 0 then
              (case buffer_pull b k of
                 None \<Rightarrow> None
               | Some b' \<Rightarrow> Some (0, tcp\<lparr>tcp_fd := s', txbuf := Some b'\<rparr>))
            else Some (0, tcp\<lparr>tcp_fd := s', txbuf := Some b\<rparr>)
        | (Inl e, s') \<Rightarrow>
            if e = EAGAIN then Some (0, tcp\<lparr>tcp_fd := s', txbuf := Some b\<rparr>)
            else Some (e, tcp\<lparr>tcp_fd := s'\<rparr>))"

text \<open>
  \<open>tcp_postpoll\<close>: the connection and \<open>*revents\<close> afterwards; \<open>None\<close> is the failed
  assertion of \<open>buffer_pull\<close>.
\<close>

definition tcp_postpoll :: "tcp_vconn \<Rightarrow> u16 \<Rightarrow> (tcp_vconn \<times> u16) option" where
  "tcp_postpoll tcp revents =
     (case txbuf tcp of
        None \<Rightarrow> Some (tcp, revents)
      | Some tx \<Rightarrow>
          if revents AND POLLOUT = 0 then Some (tcp, revents)
          else
            (case sys_write (tcp_fd tcp) tx of
               (Inl e, s') \<Rightarrow>
                 Some (tcp\<lparr>tcp_fd := s'\<rparr>,
                       (if e \<noteq> EAGAIN then revents OR POLLERR else revents) AND NOT POLLOUT)
             | (Inr k, s') \<Rightarrow>
                 if k > 0 then
                   (case buffer_pull tx k of
                      None \<Rightarrow> None
                    | Some tx' \<Rightarrow>
                        if length tx' = 0 then Some (tcp\<lparr>tcp_fd := s', txbuf := None\<rparr>, revents)
                        else Some (tcp\<lparr>tcp_fd := s', txbuf := Some tx'\<rparr>, revents AND NOT POLLOUT))
                 else Some (tcp\<lparr>tcp_fd := s'\<rparr>, revents AND NOT POLLOUT)))"

section \<open>Netlink sockets: send, receive, transact (netlink.c)\<close>

text \<open>
  What a call does besides returning a value: \<open>Abort\<close> is a failed assertion,
  \<open>Block\<close> is a blocking system call that never returns.
\<close>

datatype 'a outcome = Return 'a | Abort | Block

text \<open>The fields of \<open>struct nlmsghdr\<close> at the head of a message, read in place.\<close>

definition nlmsg_len :: "buffer \<Rightarrow> u32 option" where
  "nlmsg_len msg = load_u32 msg 0"

definition nlmsg_type :: "buffer \<Rightarrow> u16 option" where
  "nlmsg_type msg = load_u16 msg 4"

definition nlmsg_flags :: "buffer \<Rightarrow> u16 option" where
  "nlmsg_flags msg = load_u16 msg 6"

definition nlmsg_seq :: "buffer \<Rightarrow> u32 option" where
  "nlmsg_seq msg = load_u32 msg 8"

text \<open>
  The kernel's side of a Netlink socket.  \<open>k_send\<close> scripts the coming \<open>send\<close> calls:
  \<open>None\<close> for a call that succeeds, \<open>Some e\<close> for one that fails with \<open>errno = e\<close>
  (which is not 0); once the
  script is used up every \<open>send\<close> succeeds.  \<open>k_recv\<close> is the receive queue: a datagram,
  or an error that the next \<open>recvmsg\<close> reports (\<open>ENOBUFS\<close> after the kernel dropped a
  reply).  \<open>k_sent\<close> records the datagrams the kernel accepted, in order.
\<close>

datatype nl_event = NL_DGRAM buffer | NL_ERRNO int

record nl_kernel =
  k_send :: "int option list"
  k_recv :: "nl_event list"
  k_sent :: "buffer list"

text \<open>The \<open>do ... while (retval < 0 && errno == EINTR)\<close> loop around \<open>send\<close>.\<close>

fun nl_send_loop :: "int option list \<Rightarrow> int \<times> int option list" where
  "nl_send_loop [] = (0, [])"
| "nl_send_loop (None # es) = (0, es)"
| "nl_send_loop (Some e # es) = (if e = EINTR then nl_send_loop es else (e, es))"

text \<open>
  \<open>nl_sock_send\<close>: finalises \<open>nlmsg_len\<close> in the message (which it changes in place,
  so the message is returned too), then sends.  \<open>nl_msg_nlmsghdr\<close> is
  \<open>buffer_at_assert(msg, 0, NLMSG_HDRLEN)\<close>.
\<close>

definition nl_sock_send ::
  "nl_kernel \<Rightarrow> buffer \<Rightarrow> bool \<Rightarrow> ((int \<times> buffer) \<times> nl_kernel) outcome" where
  "nl_sock_send k msg wait =
     (case buffer_at msg 0 NLMSG_HDRLEN of
        None \<Rightarrow> Abort
      | Some h \<Rightarrow>
          let msg' = store_u32 msg h (word_of_nat (length msg));
              (retval, es) = nl_send_loop (k_send k)
          in Return ((retval, msg'),
                     k\<lparr>k_send := es,
                       k_sent := (if retval = 0 then k_sent k @ [msg'] else k_sent k)\<rparr>))"

text \<open>
  The macro \<open>NLMSG_OK(nlh, len)\<close> of linux/netlink.h: \<open>len\<close> holds a header, and
  \<open>nlmsg_len\<close> is at least the header length and at most \<open>len\<close>.
\<close>

definition NLMSG_OK :: "buffer \<Rightarrow> nat \<Rightarrow> bool" where
  "NLMSG_OK buf len =
     (len \<ge> NLMSG_HDRLEN \<and>
      (case nlmsg_len buf of
         None \<Rightarrow> False
       | Some l \<Rightarrow> unat l \<ge> NLMSG_HDRLEN \<and> unat l \<le> len))"

text \<open>
  The \<open>try_again\<close> loop of \<open>nl_sock_recv\<close>: the peek is truncated while the datagram
  is longer than \<open>bufsize\<close>, which is doubled each time.  \<open>bufsize\<close> starts at 2048, so
  it is positive.
\<close>

function nl_recv_bufsize :: "nat \<Rightarrow> nat \<Rightarrow> nat" where
  "nl_recv_bufsize dlen bufsize =
     (if dlen > bufsize \<and> 0 < bufsize then nl_recv_bufsize dlen (bufsize * 2) else bufsize)"
  by pat_completeness auto
termination
  by (relation "measure (\<lambda>(dlen, bufsize). dlen - bufsize)") auto

declare nl_recv_bufsize.simps [simp del]

text \<open>
  \<open>nl_sock_recv\<close> on the receive queue: the return value, the buffer stored through
  \<open>bufp\<close>, and the queue afterwards.  An error from the peeking \<open>recvmsg\<close> is retried
  when it is \<open>EINTR\<close> and returned otherwise.  A datagram is peeked into the buffer and
  then removed from the queue by the second, one-byte \<open>recvmsg\<close>; it is returned if it
  passes \<open>NLMSG_OK\<close>.  On an empty queue the call blocks if \<open>wait\<close> is set.
\<close>

fun nl_sock_recv ::
  "nl_event list \<Rightarrow> bool \<Rightarrow> ((int \<times> buffer option) \<times> nl_event list) outcome" where
  "nl_sock_recv [] wait = (if wait then Block else Return ((EAGAIN, None), []))"
| "nl_sock_recv (NL_ERRNO e # q) wait =
     (if e = EINTR then nl_sock_recv q wait else Return ((e, None), q))"
| "nl_sock_recv (NL_DGRAM d # q) wait =
     (let bufsize = nl_recv_bufsize (length d) 2048;
          buf = take bufsize d;
          nbytes = length buf
      in if \<not> NLMSG_OK buf nbytes then Return ((EPROTO, None), q)
         else Return ((0, Some buf), q))"

text \<open>
  \<open>nl_msg_nlmsgerr\<close>: \<open>Some code\<close> when the function returns true and stores \<open>code\<close>
  through \<open>errorp\<close>, \<open>None\<close> when it returns false.  \<open>struct nlmsgerr\<close> is an \<open>int\<close>
  followed by a \<open>struct nlmsghdr\<close>, 20 bytes.
\<close>

definition NLMSGERR_LEN :: nat where "NLMSGERR_LEN = 20"
definition INT_MIN :: int where "INT_MIN = - 2147483648"

definition nl_msg_nlmsgerr :: "buffer \<Rightarrow> int option outcome" where
  "nl_msg_nlmsgerr msg =
     (case buffer_at msg 0 NLMSG_HDRLEN of
        None \<Rightarrow> Abort
      | Some h \<Rightarrow>
          (case nlmsg_type msg of
             None \<Rightarrow> Abort
           | Some ty \<Rightarrow>
               if ty = NLMSG_ERROR then
                 (case buffer_at msg NLMSG_HDRLEN NLMSGERR_LEN of
                    None \<Rightarrow> Return (Some EPROTO)
                  | Some err \<Rightarrow>
                      (case load_u32 msg err of
                         None \<Rightarrow> Abort
                       | Some e \<Rightarrow>
                           if sint e \<le> 0 \<and> sint e > INT_MIN then Return (Some (- sint e))
                           else Return (Some EPROTO)))
               else Return None))"

text \<open>
  \<open>nl_sock_transact\<close> has two labels.  One pass from a label either goes to a label
  or returns: the return value, the buffer stored through \<open>replyp\<close>, the kernel side and
  the request (whose header the function changes in place).
\<close>

datatype transact_label = L_send | L_recv

datatype transact_step =
  Goto transact_label nl_kernel buffer
  | Fin "((int \<times> buffer option) \<times> nl_kernel \<times> buffer) outcome"

definition nl_sock_transact_step ::
  "transact_label \<Rightarrow> nl_kernel \<Rightarrow> buffer \<Rightarrow> u32 \<Rightarrow> transact_step" where
  "nl_sock_transact_step l k request seq =
     (case l of
        L_send \<Rightarrow>
          (case nl_sock_send k request True of
             Abort \<Rightarrow> Fin Abort
           | Block \<Rightarrow> Fin Block
           | Return ((retval, request'), k') \<Rightarrow>
               if retval \<noteq> 0 then Fin (Return ((retval, None), k', request'))
               else Goto L_recv k' request')
      | L_recv \<Rightarrow>
          (case nl_sock_recv (k_recv k) True of
             Abort \<Rightarrow> Fin Abort
           | Block \<Rightarrow> Fin Block
           | Return ((retval, reply), q) \<Rightarrow>
               let k' = k\<lparr>k_recv := q\<rparr> in
                 if retval \<noteq> 0 then
                   if retval = ENOBUFS then Goto L_send k' request
                   else Fin (Return ((retval, None), k', request))
                 else
                   (case reply of
                      None \<Rightarrow> Fin Abort
                    | Some rep \<Rightarrow>
                        (case buffer_at rep 0 NLMSG_HDRLEN of
                           None \<Rightarrow> Fin Abort
                         | Some h \<Rightarrow>
                             if Some seq \<noteq> nlmsg_seq rep then Goto L_recv k' request
                             else
                               (case nl_msg_nlmsgerr rep of
                                  Abort \<Rightarrow> Fin Abort
                                | Block \<Rightarrow> Fin Block
                                | Return (Some code) \<Rightarrow>
                                    Fin (Return ((if code \<noteq> EAGAIN then code else EPROTO, None),
                                                 k', request))
                                | Return None \<Rightarrow> Fin (Return ((0, Some rep), k', request)))))))"

text \<open>A waiting \<open>nl_sock_recv\<close> that returns has taken at least one event off the queue.\<close>

lemma nl_sock_recv_shorter:
  "nl_sock_recv q wait = Return (r, q') \<Longrightarrow> wait \<Longrightarrow> length q' < length q"
proof (induction q wait rule: nl_sock_recv.induct)
  case (1 wait)
  then show ?case by simp
next
  case (2 e q wait)
  then show ?case by (auto split: if_splits)
next
  case (3 d q wait)
  then show ?case by (auto simp: Let_def split: if_splits)
qed

function nl_sock_transact_from ::
  "transact_label \<Rightarrow> nl_kernel \<Rightarrow> buffer \<Rightarrow> u32
     \<Rightarrow> ((int \<times> buffer option) \<times> nl_kernel \<times> buffer) outcome" where
  "nl_sock_transact_from l k request seq =
     (case nl_sock_transact_step l k request seq of
        Fin r \<Rightarrow> r
      | Goto l' k' request' \<Rightarrow> nl_sock_transact_from l' k' request' seq)"
  by pat_completeness auto
termination
proof (relation "measure (\<lambda>(l, k, request, seq).
          2 * length (k_recv k) + (case l of L_send \<Rightarrow> 1 | L_recv \<Rightarrow> 0))")
  show "wf (measure (\<lambda>(l, k, request, seq).
          2 * length (k_recv k) + (case l of L_send \<Rightarrow> 1 | L_recv \<Rightarrow> 0)))"
    by simp
next
  fix l :: transact_label and k request seq l' k' request'
  assume st: "nl_sock_transact_step l k request seq = Goto l' k' request'"
  have "2 * length (k_recv k') + (case l' of L_send \<Rightarrow> 1 | L_recv \<Rightarrow> 0)
      < 2 * length (k_recv k) + (case l of L_send \<Rightarrow> 1 | L_recv \<Rightarrow> (0::nat))"
  proof (cases l)
    case L_send
    then have "l' = L_recv \<and> k_recv k' = k_recv k"
      using st
      by (auto simp: nl_sock_transact_step_def nl_sock_send_def Let_def
               split: outcome.splits option.splits prod.splits if_splits)
    then show ?thesis using L_send by simp
  next
    case L_recv
    then have "case nl_sock_recv (k_recv k) True of
                 Return (r, q) \<Rightarrow> k_recv k' = q | _ \<Rightarrow> False"
      using st
      by (auto simp: nl_sock_transact_step_def Let_def
               split: outcome.splits option.splits prod.splits if_splits)
    then have "length (k_recv k') < length (k_recv k)"
      by (auto split: outcome.splits dest: nl_sock_recv_shorter)
    then show ?thesis using L_recv by (cases l') simp_all
  qed
  then show "((l', k', request', seq), (l, k, request, seq))
      \<in> measure (\<lambda>(l, k, request, seq).
          2 * length (k_recv k) + (case l of L_send \<Rightarrow> 1 | L_recv \<Rightarrow> 0))"
    by simp
qed

declare nl_sock_transact_from.simps [simp del]

text \<open>
  \<open>nl_sock_transact\<close>: reads the request's sequence number, sets \<open>NLM_F_ACK\<close> in its
  flags, and enters at the label \<open>send\<close>.  \<open>*replyp\<close> is null unless the last return
  stores the reply.
\<close>

definition nl_sock_transact ::
  "nl_kernel \<Rightarrow> buffer \<Rightarrow> ((int \<times> buffer option) \<times> nl_kernel \<times> buffer) outcome" where
  "nl_sock_transact k request =
     (case buffer_at request 0 NLMSG_HDRLEN of
        None \<Rightarrow> Abort
      | Some h \<Rightarrow>
          (case (nlmsg_seq request, nlmsg_flags request) of
             (Some seq, Some flags) \<Rightarrow>
               nl_sock_transact_from L_send k (store_u16 request (h + 6) (flags OR NLM_F_ACK)) seq
           | _ \<Rightarrow> Abort))"

text \<open>
  The request as every \<open>send\<close> of a transaction puts it on the wire: \<open>NLM_F_ACK\<close> set in
  the flags and \<open>nlmsg_len\<close> finalised to the buffer size.
\<close>

definition nl_request_wire :: "buffer \<Rightarrow> buffer" where
  "nl_request_wire request =
     store_u32
       (store_u16 request 6 (le_word (take 2 (drop 6 request)) OR NLM_F_ACK))
       0 (word_of_nat (length request))"

section \<open>Netlink socket creation and allocation (netlink.c, util.c)\<close>












section \<open>Opening TCP connections (vconn-tcp.c)\<close>








section \<open>PID allocation: proofs\<close>

lemma slot_in_use_iff: "slot_in_use avail i = bit (avail (i div 32)) (i mod 32)"
  by (simp add: slot_in_use_def and_exp_eq_0_iff_not_bit)

lemma alloc_pid_loop_fail_iff:
  "(fst (alloc_pid_loop upid avail i) = ENOBUFS) = (\<forall>j. i \<le> j \<and> j < MAX_SOCKETS \<longrightarrow> slot_in_use avail j)"
proof (induction upid avail i rule: alloc_pid_loop.induct)
  case (1 upid avail i)
  show ?case
  proof (cases "i < MAX_SOCKETS")
    case False
    then show ?thesis by (auto simp: alloc_pid_loop.simps)
  next
    case True
    show ?thesis
    proof (cases "avail (i div 32) AND push_bit (i mod 32) 1 = 0")
      case free: True
      have "\<not> slot_in_use avail i" using free by (simp add: slot_in_use_def)
      then show ?thesis using True free
        by (subst alloc_pid_loop.simps) (auto simp: ENOBUFS_def)
    next
      case used: False
      have u: "slot_in_use avail i" using used by (simp add: slot_in_use_def)
      have "(\<forall>j. i \<le> j \<and> j < MAX_SOCKETS \<longrightarrow> slot_in_use avail j)
          = (\<forall>j. Suc i \<le> j \<and> j < MAX_SOCKETS \<longrightarrow> slot_in_use avail j)"
        using u by (metis Suc_leI le_neq_implies_less Suc_leD)
      then show ?thesis using True used "1.IH"
        by (subst alloc_pid_loop.simps) simp
    qed
  qed
qed

lemma pid_slot_compose:
  "k < MAX_SOCKETS \<Longrightarrow> pid_slot ((upid AND PROCESS_MASK) OR push_bit PROCESS_BITS (word_of_nat k)) = k"
proof -
  assume k: "k < MAX_SOCKETS"
  have m: "PROCESS_MASK = mask 22"
    by (simp add: PROCESS_MASK_def MAX_PROCESSES_def PROCESS_BITS_def SOCKET_BITS_def mask_eq_exp_minus_1)
  have kb: "n < 10" if "bit k n" for n
  proof -
    have "take_bit 10 k = k" using k by (simp add: MAX_SOCKETS_def SOCKET_BITS_def take_bit_nat_eq_self)
    then have "bit (take_bit 10 k) n" using that by simp
    then show ?thesis by (simp add: bit_take_bit_iff)
  qed
  have "drop_bit 22 ((upid AND mask 22) OR push_bit 22 (word_of_nat k :: u32)) = word_of_nat k"
    by (rule bit_word_eqI) (auto simp: bit_simps dest: kb)
  moreover have "unat (word_of_nat k :: u32) = k"
    using k by (simp add: MAX_SOCKETS_def SOCKET_BITS_def unat_of_nat)
  ultimately show ?thesis
    by (simp add: pid_slot_def m PROCESS_BITS_def SOCKET_BITS_def)
qed

lemma alloc_pid_loop_success:
  "alloc_pid_loop upid avail i = (r, p, avail') \<Longrightarrow> r \<noteq> ENOBUFS \<Longrightarrow>
   \<exists>k. i \<le> k \<and> k < MAX_SOCKETS \<and> \<not> slot_in_use avail k \<and> r = 0
      \<and> p = Some ((upid AND PROCESS_MASK) OR push_bit PROCESS_BITS (word_of_nat k))
      \<and> avail' = avail(k div 32 := avail (k div 32) OR push_bit (k mod 32) 1)"
proof (induction upid avail i rule: alloc_pid_loop.induct)
  case (1 upid avail i)
  show ?case
  proof (cases "i < MAX_SOCKETS")
    case False
    then show ?thesis using "1.prems" by (simp add: alloc_pid_loop.simps)
  next
    case True
    show ?thesis
    proof (cases "avail (i div 32) AND push_bit (i mod 32) 1 = 0")
      case free: True
      have "\<not> slot_in_use avail i" using free by (simp add: slot_in_use_def)
      moreover have "r = 0 \<and> p = Some ((upid AND PROCESS_MASK) OR push_bit PROCESS_BITS (word_of_nat i))
         \<and> avail' = avail(i div 32 := avail (i div 32) OR push_bit (i mod 32) 1)"
        using True free "1.prems"(1) by (subst (asm) alloc_pid_loop.simps) simp
      ultimately show ?thesis using True by (intro exI[of _ i]) simp
    next
      case used: False
      have "alloc_pid_loop upid avail (Suc i) = (r, p, avail')"
        using "1.prems"(1) True used by (subst (asm) alloc_pid_loop.simps) simp
      from "1.IH"[OF True used this "1.prems"(2)] obtain k where
        k: "Suc i \<le> k" "k < MAX_SOCKETS" "\<not> slot_in_use avail k" "r = 0"
           "p = Some ((upid AND PROCESS_MASK) OR push_bit PROCESS_BITS (word_of_nat k))"
           "avail' = avail(k div 32 := avail (k div 32) OR push_bit (k mod 32) 1)"
        by blast
      show ?thesis
        by (rule exI[of _ k]) (use k in simp)
    qed
  qed
qed

lemma free_pid_slot:
  "free_pid pid avail = Some avail' \<Longrightarrow>
     pid_slot pid < MAX_SOCKETS \<and> slot_in_use avail (pid_slot pid) \<and> \<not> slot_in_use avail' (pid_slot pid)"
proof -
  assume f: "free_pid pid avail = Some avail'"
  have b: "unat (drop_bit 22 pid) < 2 ^ 10"
  proof -
    have "unat pid < 2 ^ 32" using unsigned_less[of pid] by simp
    moreover have "unat (drop_bit 22 pid) = unat pid div 2 ^ 22"
      by (simp add: drop_bit_eq_div unat_div)
    ultimately show ?thesis by simp
  qed
  have c: "(w AND NOT (push_bit n 1)) AND push_bit n 1 = 0" for w :: u32 and n
    by (rule bit_word_eqI) (auto simp: bit_simps)
  show ?thesis using f b c
    by (auto simp: free_pid_def pid_slot_def Let_def slot_in_use_def PROCESS_BITS_def SOCKET_BITS_def MAX_SOCKETS_def
           split: if_splits)
qed

lemma free_pid_other:
  "free_pid pid avail = Some avail' \<Longrightarrow> j \<noteq> pid_slot pid \<Longrightarrow> slot_in_use avail' j = slot_in_use avail j"
proof -
  assume f: "free_pid pid avail = Some avail'" and j: "j \<noteq> pid_slot pid"
  define s where "s = pid_slot pid"
  have a: "avail' = avail(s div 32 := avail (s div 32) AND NOT (push_bit (s mod 32) 1))"
    using f by (auto simp: free_pid_def Let_def s_def pid_slot_def split: if_splits)
  show ?thesis
  proof (cases "j div 32 = s div 32")
    case False
    then show ?thesis by (simp add: a slot_in_use_def)
  next
    case True
    then have "j mod 32 \<noteq> s mod 32" using j s_def
      by (metis div_mult_mod_eq)
    then show ?thesis using True
      by (simp add: a slot_in_use_iff bit_simps)
  qed
qed

text \<open>
  Claim C9.  \<open>alloc_pid\<close> returns \<open>ENOBUFS\<close> exactly when every one of the
  \<open>MAX_SOCKETS\<close> slots is in use.  After \<open>free_pid\<close> has released a slot, the next
  \<open>alloc_pid\<close> returns 0 with a PID whose high bits name a slot below \<open>MAX_SOCKETS\<close>
  that was free before the call and is in use after it; when all slots had been in
  use, it is the slot just released.
\<close>

theorem alloc_pid_exhaustion:
  "(fst (alloc_pid upid avail) = ENOBUFS) = (\<forall>i<MAX_SOCKETS. slot_in_use avail i)
   \<and> (\<forall>pid avail'. free_pid pid avail = Some avail' \<longrightarrow>
        (\<exists>pid' avail''. alloc_pid upid avail' = (0, Some pid', avail'')
            \<and> pid_slot pid' < MAX_SOCKETS
            \<and> \<not> slot_in_use avail' (pid_slot pid')
            \<and> slot_in_use avail'' (pid_slot pid')
            \<and> ((\<forall>i<MAX_SOCKETS. slot_in_use avail i) \<longrightarrow> pid_slot pid' = pid_slot pid)))"
proof (intro conjI allI impI)
  show "(fst (alloc_pid upid avail) = ENOBUFS) = (\<forall>i<MAX_SOCKETS. slot_in_use avail i)"
    by (simp add: alloc_pid_def alloc_pid_loop_fail_iff)
next
  fix pid avail'
  assume f: "free_pid pid avail = Some avail'"
  note fs = free_pid_slot[OF f]
  have "fst (alloc_pid_loop upid avail' 0) \<noteq> ENOBUFS"
    using fs by (auto simp: alloc_pid_loop_fail_iff)
  moreover obtain r p a where rpa: "alloc_pid_loop upid avail' 0 = (r, p, a)"
    by (cases "alloc_pid_loop upid avail' 0") auto
  ultimately have "r \<noteq> ENOBUFS" by simp
  from alloc_pid_loop_success[OF rpa this] obtain k where
    k: "k < MAX_SOCKETS" "\<not> slot_in_use avail' k" "r = 0"
       "p = Some ((upid AND PROCESS_MASK) OR push_bit PROCESS_BITS (word_of_nat k))"
       "a = avail'(k div 32 := avail' (k div 32) OR push_bit (k mod 32) 1)"
    by blast
  let ?pid = "(upid AND PROCESS_MASK) OR push_bit PROCESS_BITS (word_of_nat k)"
  have sl: "pid_slot ?pid = k" using k(1) by (rule pid_slot_compose)
  have used: "slot_in_use a k"
    by (simp add: k(5) slot_in_use_iff bit_simps)
  have same: "k = pid_slot pid" if "\<forall>i<MAX_SOCKETS. slot_in_use avail i"
    using that k(1,2) free_pid_other[OF f, of k] by blast
  have "alloc_pid upid avail' = (0, Some ?pid, a)"
    using rpa k(3,4) by (simp add: alloc_pid_def)
  moreover have "pid_slot ?pid < MAX_SOCKETS" using sl k(1) by simp
  moreover have "\<not> slot_in_use avail' (pid_slot ?pid)" using sl k(2) by simp
  moreover have "slot_in_use a (pid_slot ?pid)" using sl used by simp
  moreover have "(\<forall>i<MAX_SOCKETS. slot_in_use avail i) \<longrightarrow> pid_slot ?pid = pid_slot pid"
    using sl same by metis
  ultimately show "\<exists>pid' avail''. alloc_pid upid avail' = (0, Some pid', avail'')
            \<and> pid_slot pid' < MAX_SOCKETS
            \<and> \<not> slot_in_use avail' (pid_slot pid')
            \<and> slot_in_use avail'' (pid_slot pid')
            \<and> ((\<forall>i<MAX_SOCKETS. slot_in_use avail i) \<longrightarrow> pid_slot pid' = pid_slot pid)"
    by blast
qed

theorem alloc_pid_exhaustion_witness:
  "fst (alloc_pid 4321 (\<lambda>_. - 1)) = ENOBUFS
   \<and> free_pid (push_bit 22 5) (\<lambda>_. - 1) = Some ((\<lambda>_. - 1)(0 := - 33))
   \<and> (\<exists>pid' avail''. alloc_pid 4321 ((\<lambda>_. - 1)(0 := - 33)) = (0, Some pid', avail'')
          \<and> pid_slot pid' = pid_slot (push_bit 22 5))"
proof -
  have full: "\<forall>i<MAX_SOCKETS. slot_in_use (\<lambda>_. - 1 :: u32) i"
    by (simp add: slot_in_use_def exp_eq_zero_iff not_le)
  have fr: "free_pid (push_bit 22 5) (\<lambda>_. - 1) = Some ((\<lambda>_. - 1)(0 := - 33))"
    by (simp add: free_pid_def PROCESS_BITS_def SOCKET_BITS_def drop_bit_eq_div)
  show ?thesis
    using alloc_pid_exhaustion[of 4321 "\<lambda>_. - 1"] full fr by blast
qed

section \<open>Message construction and parsing: proofs\<close>

lemma le_word_le_bytes: "(le_word (le_bytes n w) :: 'a::len word) = take_bit (8 * n) (w :: 'a word)"
proof (induction n arbitrary: w)
  case 0
  show ?case by simp
next
  case (Suc n)
  have "(ucast (ucast w :: u8) :: 'a word) OR push_bit 8 (take_bit (8 * n) (drop_bit 8 w)) = take_bit (8 + 8 * n) w"
    by (rule bit_word_eqI) (auto simp: bit_simps)
  then show ?case by (simp add: Suc)
qed

lemma length_le_bytes [simp]: "length (le_bytes n w) = n"
  by (induction n arbitrary: w) auto

lemma le_word_le_bytes_u8: "(le_word (le_bytes 1 (v::u8)) :: u8) = v"
  using le_word_le_bytes[of 1 v] by (simp add: take_bit_word_eq_self)
lemma le_word_le_bytes_u16: "(le_word (le_bytes 2 (v::u16)) :: u16) = v"
  using le_word_le_bytes[of 2 v] by (simp add: take_bit_word_eq_self)
lemma le_word_le_bytes_u32: "(le_word (le_bytes 4 (v::u32)) :: u32) = v"
  using le_word_le_bytes[of 4 v] by (simp add: take_bit_word_eq_self)
lemma le_word_le_bytes_u64: "(le_word (le_bytes 8 (v::u64)) :: u64) = v"
  using le_word_le_bytes[of 8 v] by (simp add: take_bit_word_eq_self)

lemma NLMSG_ALIGN_ge: "n \<le> NLMSG_ALIGN n" unfolding NLMSG_ALIGN_def by arith
lemma NLMSG_ALIGN_mod: "NLMSG_ALIGN n mod 4 = 0" by (simp add: NLMSG_ALIGN_def)
lemma NLMSG_ALIGN_lt: "NLMSG_ALIGN n < n + 4" unfolding NLMSG_ALIGN_def by arith
lemma NLA_ALIGN_eq: "NLA_ALIGN n = NLMSG_ALIGN n" by (simp add: NLMSG_ALIGN_def NLA_ALIGN_def)
lemma NLMSG_ALIGN_id: "n mod 4 = 0 \<Longrightarrow> NLMSG_ALIGN n = n" unfolding NLMSG_ALIGN_def by arith

lemma add_NLMSG_ALIGN_mod: "a mod 4 = 0 \<Longrightarrow> (a + NLMSG_ALIGN n) mod 4 = 0"
  by (simp add: NLMSG_ALIGN_def)

lemma store_bytes_mid:
  "length a = off \<Longrightarrow> length b = length bs \<Longrightarrow> store_bytes (a @ b @ c) off bs = a @ bs @ c"
  by (simp add: store_bytes_def)

lemma load_bytes_mid:
  "length a = off \<Longrightarrow> length b = n \<Longrightarrow> load_bytes (a @ b @ c) off n = Some b"
  by (simp add: load_bytes_def)

lemma nl_msg_put_uninit_eq:
  "nl_msg_put_uninit junk msg n =
     (length msg, msg @ map junk [length msg ..< length msg + n] @ replicate (NLMSG_ALIGN n - n) 0)"
proof -
  let ?l = "length msg" and ?pad = "NLMSG_ALIGN n - n"
  have split: "map junk [?l ..< ?l + (n + ?pad)] = map junk [?l ..< ?l + n] @ map junk [?l + n ..< ?l + n + ?pad]"
    using upt_add_eq_append[of ?l "?l + n" ?pad] by (simp add: add.assoc)
  have "store_bytes (msg @ map junk [?l ..< ?l + (n + ?pad)]) (?l + n) (replicate ?pad 0)
      = msg @ map junk [?l ..< ?l + n] @ replicate ?pad 0"
    unfolding split using store_bytes_mid[of "msg @ map junk [?l ..< ?l + n]" "?l + n" "map junk [?l + n ..< ?l + n + ?pad]" "replicate ?pad 0" "[]"]
    by simp
  then show ?thesis
    by (auto simp: nl_msg_put_uninit_def buffer_put_uninit_def Let_def)
qed

lemma length_store_bytes: "off + length bs \<le> length b \<Longrightarrow> length (store_bytes b off bs) = length b"
  by (simp add: store_bytes_def)

lemma length_nl_msg_put_uninit:
  "length (snd (nl_msg_put_uninit junk msg n)) = length msg + NLMSG_ALIGN n"
  using NLMSG_ALIGN_ge[of n] by (simp add: nl_msg_put_uninit_eq)

lemma store_bytes_prefix:
  "length a = off \<Longrightarrow> length bs \<le> length b \<Longrightarrow> store_bytes (a @ b) off bs = a @ bs @ drop (length bs) b"
  by (simp add: store_bytes_def)

lemma nl_msg_put_unspec_uninit_eq:
  assumes "NLA_ALIGN (NLA_HDRLEN + n) \<le> UINT16_MAX"
  shows "nl_msg_put_unspec_uninit junk msg ty n =
     Some (length msg + NLA_HDRLEN,
           msg @ le_bytes 2 (word_of_nat (NLA_HDRLEN + n) :: u16) @ le_bytes 2 ty
               @ map junk [length msg + NLA_HDRLEN ..< length msg + NLA_HDRLEN + n]
               @ replicate (NLA_ALIGN (NLA_HDRLEN + n) - (NLA_HDRLEN + n)) 0)"
proof -
  let ?l = "length msg"
  let ?Z = "replicate (NLMSG_ALIGN (4 + n) - (4 + n)) (0::u8)"
  let ?R = "map junk [?l ..< ?l + (4 + n)] @ ?Z"
  have m0: "nl_msg_put_uninit junk msg (4 + n) = (?l, msg @ ?R)"
    by (simp add: nl_msg_put_uninit_eq)
  have s1: "store_u16 (msg @ ?R) ?l v = msg @ le_bytes 2 v @ drop 2 ?R" for v
    unfolding store_u16_def using store_bytes_prefix[of msg ?l "le_bytes 2 v" ?R] by simp
  have s2: "store_u16 (msg @ le_bytes 2 v @ drop 2 ?R) (?l + 2) w
      = msg @ le_bytes 2 v @ le_bytes 2 w @ drop 2 (drop 2 ?R)" for v :: u16 and w
    unfolding store_u16_def
    using store_bytes_prefix[of "msg @ le_bytes 2 v" "?l + 2" "le_bytes 2 w" "drop 2 ?R"]
    by simp
  have d: "drop 2 (drop 2 ?R) = map junk [?l + 4 ..< ?l + 4 + n] @ ?Z"
  proof -
    have "drop 4 [?l ..< ?l + (4 + n)] = [?l + 4 ..< ?l + 4 + n]"
      by (simp only: drop_upt add.assoc)
    then have "drop 4 ?R = map junk [?l + 4 ..< ?l + 4 + n] @ ?Z"
      by (simp only: drop_append drop_map length_map length_upt) simp
    then show ?thesis by simp
  qed
  show ?thesis
    using assms
    by (simp only: nl_msg_put_unspec_uninit_def Let_def NLA_HDRLEN_def m0 s1 s2 d NLA_ALIGN_eq
          prod.case if_False if_True not_not not_True_eq_False)
qed

lemma nl_msg_put_unspec_eq:
  assumes "NLA_ALIGN (NLA_HDRLEN + length dat) \<le> UINT16_MAX"
  shows "nl_msg_put_unspec junk msg ty dat =
     Some (msg @ le_bytes 2 (word_of_nat (NLA_HDRLEN + length dat) :: u16) @ le_bytes 2 ty @ dat
               @ replicate (NLA_ALIGN (NLA_HDRLEN + length dat) - (NLA_HDRLEN + length dat)) 0)"
proof -
  let ?l = "length msg"
  let ?Z = "replicate (NLA_ALIGN (NLA_HDRLEN + length dat) - (NLA_HDRLEN + length dat)) (0::u8)"
  let ?H = "le_bytes 2 (word_of_nat (NLA_HDRLEN + length dat) :: u16) @ le_bytes 2 ty"
  have "store_bytes ((msg @ ?H) @ map junk [?l + NLA_HDRLEN ..< ?l + NLA_HDRLEN + length dat] @ ?Z) (?l + NLA_HDRLEN) dat
      = (msg @ ?H) @ dat @ ?Z"
    by (rule store_bytes_mid) (simp_all add: NLA_HDRLEN_def)
  then show ?thesis
    by (simp add: nl_msg_put_unspec_def nl_msg_put_unspec_uninit_eq[OF assms])
qed

lemma nl_msg_put_unspec_uninit_SomeD:
  "nl_msg_put_unspec_uninit junk msg ty n = Some (p, m') \<Longrightarrow> NLA_ALIGN (NLA_HDRLEN + n) \<le> UINT16_MAX"
  by (auto simp: nl_msg_put_unspec_uninit_def Let_def split: prod.splits if_splits)

lemma nl_msg_put_unspec_SomeD:
  "nl_msg_put_unspec junk msg ty dat = Some m' \<Longrightarrow> NLA_ALIGN (NLA_HDRLEN + length dat) \<le> UINT16_MAX"
  by (auto simp: nl_msg_put_unspec_def split: option.splits dest: nl_msg_put_unspec_uninit_SomeD)

lemma length_nl_msg_put_unspec_uninit:
  assumes "nl_msg_put_unspec_uninit junk m ty n = Some (p, m')"
  shows "length m' = length m + NLMSG_ALIGN (4 + n)"
proof -
  have ok: "NLA_ALIGN (NLA_HDRLEN + n) \<le> UINT16_MAX"
    using assms by (rule nl_msg_put_unspec_uninit_SomeD)
  show ?thesis
    using assms NLMSG_ALIGN_ge[of "4 + n"]
    by (simp add: nl_msg_put_unspec_uninit_eq[OF ok] NLA_HDRLEN_def NLA_ALIGN_eq) auto
qed

lemma length_nl_msg_put_unspec:
  assumes "nl_msg_put_unspec junk m ty dat = Some m'"
  shows "length m' = length m + NLMSG_ALIGN (4 + length dat)"
proof -
  have ok: "NLA_ALIGN (NLA_HDRLEN + length dat) \<le> UINT16_MAX"
    using assms by (rule nl_msg_put_unspec_SomeD)
  show ?thesis
    using assms NLMSG_ALIGN_ge[of "4 + length dat"]
    by (simp add: nl_msg_put_unspec_eq[OF ok] NLA_HDRLEN_def NLA_ALIGN_eq) auto
qed

lemma nl_msg_put_unspec_None:
  "\<not> NLA_ALIGN (NLA_HDRLEN + length dat) \<le> UINT16_MAX \<Longrightarrow> nl_msg_put_unspec junk msg ty dat = None"
  by (simp add: nl_msg_put_unspec_def nl_msg_put_unspec_uninit_def Let_def split: prod.splits)

lemma length_nl_msg_put_nlmsghdr:
  "nl_msg_put_nlmsghdr junk next_seq msg sock e ty flags = Some (s, m) \<Longrightarrow> msg = [] \<and> length m = NLMSG_HDRLEN"
  by (auto simp: nl_msg_put_nlmsghdr_def nl_msg_put_uninit_eq Let_def NLMSG_HDRLEN_def NLMSG_ALIGN_def
      store_u32_def store_u16_def length_store_bytes split: if_splits)

lemma length_nl_msg_put_genlmsghdr:
  "nl_msg_put_genlmsghdr junk next_seq msg sock e family flags cmd version = Some (s, m)
     \<Longrightarrow> msg = [] \<and> length m = NLMSG_HDRLEN + GENL_HDRLEN"
  by (auto simp: nl_msg_put_genlmsghdr_def nl_msg_put_uninit_eq Let_def NLMSG_HDRLEN_def GENL_HDRLEN_def
      NLMSG_ALIGN_def store_u16_def length_store_bytes
      dest!: length_nl_msg_put_nlmsghdr split: option.splits if_splits)

lemma nl_msg_put_genlmsghdr_Some:
  "\<exists>m. nl_msg_put_genlmsghdr junk next_seq [] sock e family flags cmd version = Some (next_seq + 1, m)"
  by (simp add: nl_msg_put_genlmsghdr_def nl_msg_put_nlmsghdr_def nl_msg_put_uninit_eq Let_def NLMSG_HDRLEN_def GENL_HDRLEN_def
      NLMSG_ALIGN_def store_u16_def store_u32_def length_store_bytes)

lemma nl_built_aligned: "nl_built m \<Longrightarrow> length m mod 4 = 0"
proof (induction rule: nl_built.induct)
  case built_empty
  show ?case by simp
next
  case (built_nlmsghdr junk next_seq sock expected_payload ty flags s m)
  then show ?case by (auto dest!: length_nl_msg_put_nlmsghdr simp: NLMSG_HDRLEN_def)
next
  case (built_genlmsghdr junk next_seq sock expected_payload family flags cmd version s m)
  then show ?case by (auto dest!: length_nl_msg_put_genlmsghdr simp: NLMSG_HDRLEN_def GENL_HDRLEN_def)
next
  case (built_put m junk dat)
  have "length (nl_msg_put junk m dat) = length m + NLMSG_ALIGN (length dat)"
    using NLMSG_ALIGN_ge[of "length dat"]
    by (simp add: nl_msg_put_def nl_msg_put_uninit_eq length_store_bytes)
  then show ?case using built_put.IH by (simp add: NLMSG_ALIGN_def mod_add_eq)
next
  case (built_put_uninit m junk n)
  then show ?case by (simp add: length_nl_msg_put_uninit NLMSG_ALIGN_def)
next
  case (built_put_unspec_uninit m junk ty n p m')
  then show ?case
    by (simp add: length_nl_msg_put_unspec_uninit add_NLMSG_ALIGN_mod)
next
  case (built_put_unspec m junk ty dat m')
  then show ?case
    by (simp add: length_nl_msg_put_unspec add_NLMSG_ALIGN_mod)
qed

text \<open>
  Claim C5.  For a message built with the put operations and an attribute inserted
  into it with \<open>nl_msg_put_unspec\<close> (which every typed put helper calls): the payload
  starts at a multiple of 4 and holds the data; the \<open>nla_len\<close> field holds the
  unaligned length \<open>NLA_HDRLEN + size\<close>; the message grows by the aligned length, so
  the next attribute starts at a multiple of 4; every byte between the end of the
  payload and the new tail is zero; the bytes before the attribute are unchanged.
\<close>

theorem nl_msg_attr_alignment:
  assumes b: "nl_built msg" and p: "nl_msg_put_unspec junk msg ty dat = Some msg'"
  shows "(length msg + NLA_HDRLEN) mod 4 = 0
       \<and> load_bytes msg' (length msg + NLA_HDRLEN) (length dat) = Some dat
       \<and> map_option unat (load_u16 msg' (length msg)) = Some (NLA_HDRLEN + length dat)
       \<and> load_u16 msg' (length msg + 2) = Some ty
       \<and> length msg' = length msg + NLA_ALIGN (NLA_HDRLEN + length dat)
       \<and> length msg' mod 4 = 0
       \<and> (\<forall>i. length msg + NLA_HDRLEN + length dat \<le> i \<and> i < length msg' \<longrightarrow> msg' ! i = 0)
       \<and> take (length msg) msg' = msg
       \<and> nl_built msg'"
proof -
  let ?n = "NLA_HDRLEN + length dat"
  let ?L = "le_bytes 2 (word_of_nat ?n :: u16)" and ?T = "le_bytes 2 ty"
  let ?Z = "replicate (NLA_ALIGN ?n - ?n) (0::u8)"
  have ok: "NLA_ALIGN ?n \<le> UINT16_MAX" using p by (rule nl_msg_put_unspec_SomeD)
  have m': "msg' = msg @ ?L @ ?T @ dat @ ?Z"
    using p by (simp add: nl_msg_put_unspec_eq[OF ok])
  have al: "length msg mod 4 = 0" using b by (rule nl_built_aligned)
  have ge: "?n \<le> NLA_ALIGN ?n" using NLMSG_ALIGN_ge[of ?n] by (simp add: NLA_ALIGN_eq)
  have c1: "(length msg + NLA_HDRLEN) mod 4 = 0" using al by (simp add: NLA_HDRLEN_def)
  have c2: "load_bytes msg' (length msg + NLA_HDRLEN) (length dat) = Some dat"
    using load_bytes_mid[of "msg @ ?L @ ?T" "length msg + NLA_HDRLEN" dat "length dat" ?Z]
    by (simp add: m' NLA_HDRLEN_def)
  have "unat (word_of_nat ?n :: u16) = ?n mod 2 ^ 16"
    by (simp only: unat_of_nat) simp
  moreover have "?n < 2 ^ 16" using ok ge by (simp add: UINT16_MAX_def)
  ultimately have "unat (word_of_nat ?n :: u16) = ?n" by (simp only: mod_less)
  moreover have "load_u16 msg' (length msg) = Some (word_of_nat ?n)"
    using load_bytes_mid[of msg "length msg" ?L 2 "?T @ dat @ ?Z"]
    by (simp add: m' load_u16_def le_word_le_bytes_u16)
  ultimately have c3: "map_option unat (load_u16 msg' (length msg)) = Some ?n" by simp
  have c4: "load_u16 msg' (length msg + 2) = Some ty"
    using load_bytes_mid[of "msg @ ?L" "length msg + 2" ?T 2 "dat @ ?Z"]
    by (simp add: m' load_u16_def le_word_le_bytes_u16)
  have c5: "length msg' = length msg + NLA_ALIGN ?n"
    using ge by (simp add: m' NLA_HDRLEN_def)
  have c6: "length msg' mod 4 = 0"
    using al by (simp add: c5 NLA_ALIGN_eq add_NLMSG_ALIGN_mod)
  have c7: "msg' ! i = 0" if "length msg + NLA_HDRLEN + length dat \<le> i" "i < length msg'" for i
  proof -
    have "msg' = (msg @ ?L @ ?T @ dat) @ ?Z" by (simp add: m')
    moreover have "length (msg @ ?L @ ?T @ dat) = length msg + NLA_HDRLEN + length dat"
      by (simp add: NLA_HDRLEN_def)
    ultimately have "msg' ! i = ?Z ! (i - (length msg + NLA_HDRLEN + length dat))"
      using that(1) by (metis nth_append not_less)
    moreover have "i - (length msg + NLA_HDRLEN + length dat) < NLA_ALIGN ?n - ?n"
      using that c5 ge by simp
    ultimately show ?thesis by simp
  qed
  have c8: "take (length msg) msg' = msg" by (simp add: m')
  have c9: "nl_built msg'" using b p by (rule built_put_unspec)
  show ?thesis using c1 c2 c3 c4 c5 c6 c7 c8 c9 by blast
qed

theorem nl_msg_attr_alignment_witness:
  "nl_built [0::u8,0,0,0,16,0,1,0,42,0,0,0,9,0,0,0,3,1,0,0]
   \<and> nl_msg_put_unspec (\<lambda>_. 170) [0::u8,0,0,0,16,0,1,0,42,0,0,0,9,0,0,0,3,1,0,0] 1 [7]
       = Some [0::u8,0,0,0,16,0,1,0,42,0,0,0,9,0,0,0,3,1,0,0,5,0,1,0,7,0,0,0]
   \<and> (length [0::u8,0,0,0,16,0,1,0,42,0,0,0,9,0,0,0,3,1,0,0] + NLA_HDRLEN) mod 4 = 0
   \<and> map_option unat (load_u16 [0::u8,0,0,0,16,0,1,0,42,0,0,0,9,0,0,0,3,1,0,0,5,0,1,0,7,0,0,0] (length [0::u8,0,0,0,16,0,1,0,42,0,0,0,9,0,0,0,3,1,0,0]))
       = Some (NLA_HDRLEN + length [7::u8])
   \<and> length [0::u8,0,0,0,16,0,1,0,42,0,0,0,9,0,0,0,3,1,0,0,5,0,1,0,7,0,0,0]
       = length [0::u8,0,0,0,16,0,1,0,42,0,0,0,9,0,0,0,3,1,0,0] + NLA_ALIGN (NLA_HDRLEN + length [7::u8])
   \<and> nl_built [0::u8,0,0,0,16,0,1,0,42,0,0,0,9,0,0,0,3,1,0,0,5,0,1,0,7,0,0,0]"
proof -
  have g: "nl_msg_put_genlmsghdr (\<lambda>_. 170) 41 [] \<lparr>sock_fd = 3, sock_pid = 9\<rparr> 0 16 1 3 1
      = Some (42, [0::u8,0,0,0,16,0,1,0,42,0,0,0,9,0,0,0,3,1,0,0])"
    by code_simp
  have u: "nl_msg_put_unspec (\<lambda>_. 170) [0::u8,0,0,0,16,0,1,0,42,0,0,0,9,0,0,0,3,1,0,0] 1 [7]
      = Some [0::u8,0,0,0,16,0,1,0,42,0,0,0,9,0,0,0,3,1,0,0,5,0,1,0,7,0,0,0]"
    by code_simp
  have b: "nl_built [0::u8,0,0,0,16,0,1,0,42,0,0,0,9,0,0,0,3,1,0,0]"
    by (rule built_genlmsghdr[OF g])
  show ?thesis
    using nl_msg_attr_alignment[OF b u] b u by (elim conjE) (intro conjI, assumption+)
qed

lemma nl_count_required_append:
  "nl_count_required (a @ b) = nl_count_required a + nl_count_required b"
  by (induction a) auto

lemma nl_count_required_absent:
  "\<forall>pl \<in> set pol. pol_type pl = NL_A_NO_ATTR \<Longrightarrow> nl_count_required pol = 0"
  by (induction pol) auto

lemma nl_count_required_single:
  assumes T: "t < length pol"
    and others: "\<forall>i<length pol. i \<noteq> t \<longrightarrow> pol_type (pol ! i) = NL_A_NO_ATTR"
  shows "nl_count_required pol = nl_count_required [pol ! t]"
proof -
  have sp: "pol = take t pol @ [pol ! t] @ drop (Suc t) pol"
    using T by (simp add: id_take_nth_drop[symmetric])
  have a: "\<forall>pl \<in> set (take t pol). pol_type pl = NL_A_NO_ATTR"
    using T others by (auto simp: in_set_conv_nth)
  have b: "\<forall>pl \<in> set (drop (Suc t) pol). pol_type pl = NL_A_NO_ATTR"
    using T others by (auto simp: in_set_conv_nth)
  have "nl_count_required pol = nl_count_required (take t pol) + (nl_count_required [pol ! t] + nl_count_required (drop (Suc t) pol))"
    by (subst sp) (simp only: nl_count_required_append)
  then show ?thesis
    by (simp only: nl_count_required_absent[OF a] nl_count_required_absent[OF b] add_0 add_0_right)
qed

lemma parse_one_attr:
  fixes dat :: "u8 list" and pol :: "nl_policy list" and ty :: u16
  assumes hl: "length hdr = 20"
    and k: "length dat = k" "k \<le> 8"
    and T: "unat ty < length pol"
    and others: "\<forall>i<length pol. i \<noteq> unat ty \<longrightarrow> pol_type (pol ! i) = NL_A_NO_ATTR"
    and kind: "pol_type (pol ! unat ty) \<noteq> NL_A_NO_ATTR" "pol_type (pol ! unat ty) \<noteq> NL_A_STRING"
       "pol_type (pol ! unat ty) \<noteq> NL_A_FLAG"
       "attr_len_range (pol_type (pol ! unat ty)) = (k, k)"
       "pol_min_len (pol ! unat ty) = 0" "pol_max_len (pol ! unat ty) = 0"
    and msg: "msg = hdr @ le_bytes 2 (word_of_nat (NLA_HDRLEN + k) :: u16) @ le_bytes 2 ty @ dat
                  @ replicate (NLA_ALIGN (NLA_HDRLEN + k) - (NLA_HDRLEN + k)) 0"
  shows "nl_policy_parse msg pol = PARSE_OK ((replicate (length pol) None)[unat ty := Some 20])"
proof -
  let ?n = "NLA_HDRLEN + k"
  let ?L = "le_bytes 2 (word_of_nat ?n :: u16)" and ?T = "le_bytes 2 ty"
  let ?Z = "replicate (NLA_ALIGN ?n - ?n) (0::u8)"
  let ?attrs = "replicate (length pol) (None :: nat option)"
  let ?pl = "pol ! unat ty"
  have ge: "?n \<le> NLA_ALIGN ?n" using NLMSG_ALIGN_ge[of ?n] by (simp add: NLA_ALIGN_eq)
  have len: "length msg = 20 + NLA_ALIGN ?n"
    using ge by (simp add: msg hl k NLA_HDRLEN_def)
  define w where "w = (word_of_nat ?n :: u16)"
  have un: "unat w = 4 + k" unfolding w_def
  proof -
    have "unat (word_of_nat ?n :: u16) = ?n mod 2 ^ 16"
      by (simp only: unat_of_nat) simp
    moreover have "?n < 2 ^ 16" using k by (simp add: NLA_HDRLEN_def)
    ultimately have "unat (word_of_nat ?n :: u16) = ?n" by (simp only: mod_less)
    then show "unat (word_of_nat ?n :: u16) = 4 + k" by (simp only: NLA_HDRLEN_def)
  qed
  have l1: "load_u16 msg 20 = Some w"
    using load_bytes_mid[of hdr 20 ?L 2 "?T @ dat @ ?Z"]
    unfolding w_def by (simp add: msg hl load_u16_def le_word_le_bytes_u16)
  have l2: "load_u16 msg 22 = Some ty"
    using load_bytes_mid[of "hdr @ ?L" 22 ?T 2 "dat @ ?Z"]
    by (simp add: msg hl load_u16_def le_word_le_bytes_u16)
  have al: "NLA_ALIGN (?n - NLA_HDRLEN) \<le> NLA_ALIGN ?n"
    by (simp add: NLA_ALIGN_def NLA_HDRLEN_def)
  have cnt: "nl_count_required pol = (if pol_optional ?pl then 0 else 1)"
    using kind by (simp add: nl_count_required_single[OF T others])
  have step: "nl_policy_parse_attr msg pol 20 ?attrs (nl_count_required pol)
      = Next (20 + NLA_ALIGN ?n) (?attrs[unat ty := Some 20]) 0"
    using T kind al
    by (simp add: nl_policy_parse_attr_def l1 l2[simplified] un Let_def buffer_tail_def len cnt NLA_HDRLEN_def)
  have fin: "nl_policy_parse_loop msg pol (20 + NLA_ALIGN ?n) (?attrs[unat ty := Some 20]) 0
      = PARSE_OK (?attrs[unat ty := Some 20])"
    by (subst nl_policy_parse_loop.simps) (simp add: buffer_tail_def len)
  have lt: "20 < buffer_tail msg" using ge by (simp add: buffer_tail_def len NLA_HDRLEN_def)
  have "nl_policy_parse_loop msg pol 20 ?attrs (nl_count_required pol) = PARSE_OK (?attrs[unat ty := Some 20])"
    by (subst nl_policy_parse_loop.simps) (simp add: lt step fin)
  then show ?thesis
    using lt by (simp add: nl_policy_parse_def buffer_at_def buffer_tail_def NLMSG_HDRLEN_def GENL_HDRLEN_def Let_def)
qed

lemma get_one_attr:
  fixes dat :: "u8 list" and ty :: u16
  assumes hl: "length hdr = 20"
    and k: "length dat = k" "k \<le> 8"
    and msg: "msg = hdr @ le_bytes 2 (word_of_nat (NLA_HDRLEN + k) :: u16) @ le_bytes 2 ty @ dat
                  @ replicate (NLA_ALIGN (NLA_HDRLEN + k) - (NLA_HDRLEN + k)) 0"
  shows "nl_attr_get_unspec msg (Some 20) k = Some 24 \<and> load_bytes msg 24 k = Some dat"
proof -
  let ?n = "NLA_HDRLEN + k"
  let ?L = "le_bytes 2 (word_of_nat ?n :: u16)" and ?T = "le_bytes 2 ty"
  let ?Z = "replicate (NLA_ALIGN ?n - ?n) (0::u8)"
  define w where "w = (word_of_nat ?n :: u16)"
  have un: "unat w = 4 + k" unfolding w_def
  proof -
    have "unat (word_of_nat ?n :: u16) = ?n mod 2 ^ 16"
      by (simp only: unat_of_nat) simp
    moreover have "?n < 2 ^ 16" using k by (simp add: NLA_HDRLEN_def)
    ultimately have "unat (word_of_nat ?n :: u16) = ?n" by (simp only: mod_less)
    then show "unat (word_of_nat ?n :: u16) = 4 + k" by (simp only: NLA_HDRLEN_def)
  qed
  have l1: "load_u16 msg 20 = Some w"
    using load_bytes_mid[of hdr 20 ?L 2 "?T @ dat @ ?Z"]
    unfolding w_def by (simp add: msg hl load_u16_def le_word_le_bytes_u16)
  have l2: "load_bytes msg 24 k = Some dat"
    using load_bytes_mid[of "hdr @ ?L @ ?T" 24 dat k ?Z]
    by (simp add: msg hl k)
  show ?thesis
    by (simp add: nl_attr_get_unspec_def l1 un l2 NLA_HDRLEN_def)
qed

lemma roundtrip_one:
  fixes dat :: "u8 list" and T :: u16 and policy :: "nl_policy list"
  assumes hl: "length hdr = 20"
    and k: "length dat = k" "k \<le> 8"
    and T: "unat T < length policy"
    and others: "\<forall>i<length policy. i \<noteq> unat T \<longrightarrow> pol_type (policy ! i) = NL_A_NO_ATTR"
    and kind: "pol_type (policy ! unat T) \<noteq> NL_A_NO_ATTR" "pol_type (policy ! unat T) \<noteq> NL_A_STRING"
       "pol_type (policy ! unat T) \<noteq> NL_A_FLAG"
       "attr_len_range (pol_type (policy ! unat T)) = (k, k)"
       "pol_min_len (policy ! unat T) = 0" "pol_max_len (policy ! unat T) = 0"
  shows "\<exists>msg attrs. nl_msg_put_unspec junk hdr T dat = Some msg
            \<and> nl_policy_parse msg policy = PARSE_OK attrs
            \<and> nl_attr_get_unspec msg (attrs ! unat T) k = Some 24
            \<and> load_bytes msg 24 k = Some dat"
proof -
  let ?msg = "hdr @ le_bytes 2 (word_of_nat (NLA_HDRLEN + k) :: u16) @ le_bytes 2 T @ dat
                  @ replicate (NLA_ALIGN (NLA_HDRLEN + k) - (NLA_HDRLEN + k)) 0"
  let ?attrs = "(replicate (length policy) (None :: nat option))[unat T := Some 20]"
  have ok: "NLA_ALIGN (NLA_HDRLEN + length dat) \<le> UINT16_MAX"
    using k by (simp add: NLA_ALIGN_def NLA_HDRLEN_def UINT16_MAX_def)
  have put: "nl_msg_put_unspec junk hdr T dat = Some ?msg"
    using nl_msg_put_unspec_eq[OF ok, of junk hdr T] by (simp add: k)
  have parse: "nl_policy_parse ?msg policy = PARSE_OK ?attrs"
    by (rule parse_one_attr[OF hl k T others kind refl])
  have at: "?attrs ! unat T = Some 20" using T by simp
  have get: "nl_attr_get_unspec ?msg (Some 20) k = Some 24 \<and> load_bytes ?msg 24 k = Some dat"
    by (rule get_one_attr[OF hl k refl])
  show ?thesis
    using put parse at get by (metis (no_types, lifting))
qed

text \<open>
  Claim C6.  For X in 8, 16, 32, 64, every attribute type \<open>T\<close> and every value \<open>v\<close>:
  a message made of the Netlink and Generic Netlink headers followed by
  \<open>nl_msg_put_uX(T, v)\<close> is built without a failed assertion; \<open>nl_policy_parse\<close> under a
  policy whose entry \<open>T\<close> has kind uX (default length range) and whose other entries are
  \<open>NL_A_NO_ATTR\<close> returns true; and \<open>nl_attr_get_uX\<close> on \<open>attrs[T]\<close> returns \<open>v\<close>.
\<close>

theorem put_parse_get_roundtrip:
  fixes T :: u16 and policy :: "nl_policy list"
  assumes T: "unat T < length policy"
    and others: "\<forall>i<length policy. i \<noteq> unat T \<longrightarrow> pol_type (policy ! i) = NL_A_NO_ATTR"
    and lens: "pol_min_len (policy ! unat T) = 0" "pol_max_len (policy ! unat T) = 0"
  shows "\<exists>seq' hdr.
      nl_msg_put_genlmsghdr junk next_seq [] sock expected_payload family flags cmd version = Some (seq', hdr)
      \<and> (pol_type (policy ! unat T) = NL_A_U8 \<longrightarrow>
            (\<exists>msg attrs. nl_msg_put_u8 junk hdr T v8 = Some msg
               \<and> nl_policy_parse msg policy = PARSE_OK attrs
               \<and> nl_attr_get_u8 msg (attrs ! unat T) = Some v8))
      \<and> (pol_type (policy ! unat T) = NL_A_U16 \<longrightarrow>
            (\<exists>msg attrs. nl_msg_put_u16 junk hdr T v16 = Some msg
               \<and> nl_policy_parse msg policy = PARSE_OK attrs
               \<and> nl_attr_get_u16 msg (attrs ! unat T) = Some v16))
      \<and> (pol_type (policy ! unat T) = NL_A_U32 \<longrightarrow>
            (\<exists>msg attrs. nl_msg_put_u32 junk hdr T v32 = Some msg
               \<and> nl_policy_parse msg policy = PARSE_OK attrs
               \<and> nl_attr_get_u32 msg (attrs ! unat T) = Some v32))
      \<and> (pol_type (policy ! unat T) = NL_A_U64 \<longrightarrow>
            (\<exists>msg attrs. nl_msg_put_u64 junk hdr T v64 = Some msg
               \<and> nl_policy_parse msg policy = PARSE_OK attrs
               \<and> nl_attr_get_u64 msg (attrs ! unat T) = Some v64))"
proof -
  obtain hdr where h: "nl_msg_put_genlmsghdr junk next_seq [] sock expected_payload family flags cmd version
       = Some (next_seq + 1, hdr)"
    using nl_msg_put_genlmsghdr_Some by blast
  have hl: "length hdr = 20"
    using length_nl_msg_put_genlmsghdr[OF h] by (simp add: NLMSG_HDRLEN_def GENL_HDRLEN_def)
  have c8: "\<exists>msg attrs. nl_msg_put_u8 junk hdr T v8 = Some msg
               \<and> nl_policy_parse msg policy = PARSE_OK attrs
               \<and> nl_attr_get_u8 msg (attrs ! unat T) = Some v8"
    if ty: "pol_type (policy ! unat T) = NL_A_U8"
  proof -
    from roundtrip_one[OF hl _ _ T others, of "le_bytes 1 v8" 1 junk]
    obtain msg attrs where r: "nl_msg_put_unspec junk hdr T (le_bytes 1 v8) = Some msg"
       "nl_policy_parse msg policy = PARSE_OK attrs"
       "nl_attr_get_unspec msg (attrs ! unat T) 1 = Some 24"
       "load_bytes msg 24 1 = Some (le_bytes 1 v8)"
      using ty lens by auto
    have "nl_attr_get_u8 msg (attrs ! unat T) = Some v8"
      using le_word_le_bytes_u8[of v8] r(3,4) by (simp add: nl_attr_get_u8_def load_u8_def)
    then show ?thesis using r(1,2) by (auto simp: nl_msg_put_u8_def)
  qed
  have c16: "\<exists>msg attrs. nl_msg_put_u16 junk hdr T v16 = Some msg
               \<and> nl_policy_parse msg policy = PARSE_OK attrs
               \<and> nl_attr_get_u16 msg (attrs ! unat T) = Some v16"
    if ty: "pol_type (policy ! unat T) = NL_A_U16"
  proof -
    from roundtrip_one[OF hl _ _ T others, of "le_bytes 2 v16" 2 junk]
    obtain msg attrs where r: "nl_msg_put_unspec junk hdr T (le_bytes 2 v16) = Some msg"
       "nl_policy_parse msg policy = PARSE_OK attrs"
       "nl_attr_get_unspec msg (attrs ! unat T) 2 = Some 24"
       "load_bytes msg 24 2 = Some (le_bytes 2 v16)"
      using ty lens by auto
    have "nl_attr_get_u16 msg (attrs ! unat T) = Some v16"
      using le_word_le_bytes_u16[of v16] r(3,4) by (simp add: nl_attr_get_u16_def load_u16_def)
    then show ?thesis using r(1,2) by (auto simp: nl_msg_put_u16_def)
  qed
  have c32: "\<exists>msg attrs. nl_msg_put_u32 junk hdr T v32 = Some msg
               \<and> nl_policy_parse msg policy = PARSE_OK attrs
               \<and> nl_attr_get_u32 msg (attrs ! unat T) = Some v32"
    if ty: "pol_type (policy ! unat T) = NL_A_U32"
  proof -
    from roundtrip_one[OF hl _ _ T others, of "le_bytes 4 v32" 4 junk]
    obtain msg attrs where r: "nl_msg_put_unspec junk hdr T (le_bytes 4 v32) = Some msg"
       "nl_policy_parse msg policy = PARSE_OK attrs"
       "nl_attr_get_unspec msg (attrs ! unat T) 4 = Some 24"
       "load_bytes msg 24 4 = Some (le_bytes 4 v32)"
      using ty lens by auto
    have "nl_attr_get_u32 msg (attrs ! unat T) = Some v32"
      using le_word_le_bytes_u32[of v32] r(3,4) by (simp add: nl_attr_get_u32_def load_u32_def)
    then show ?thesis using r(1,2) by (auto simp: nl_msg_put_u32_def)
  qed
  have c64: "\<exists>msg attrs. nl_msg_put_u64 junk hdr T v64 = Some msg
               \<and> nl_policy_parse msg policy = PARSE_OK attrs
               \<and> nl_attr_get_u64 msg (attrs ! unat T) = Some v64"
    if ty: "pol_type (policy ! unat T) = NL_A_U64"
  proof -
    from roundtrip_one[OF hl _ _ T others, of "le_bytes 8 v64" 8 junk]
    obtain msg attrs where r: "nl_msg_put_unspec junk hdr T (le_bytes 8 v64) = Some msg"
       "nl_policy_parse msg policy = PARSE_OK attrs"
       "nl_attr_get_unspec msg (attrs ! unat T) 8 = Some 24"
       "load_bytes msg 24 8 = Some (le_bytes 8 v64)"
      using ty lens by auto
    have "nl_attr_get_u64 msg (attrs ! unat T) = Some v64"
      using le_word_le_bytes_u64[of v64] r(3,4) by (simp add: nl_attr_get_u64_def load_u64_def)
    then show ?thesis using r(1,2) by (auto simp: nl_msg_put_u64_def)
  qed
  show ?thesis using h c8 c16 c32 c64 by blast
qed

theorem put_parse_get_roundtrip_witness:
  "\<exists>seq' hdr msg attrs.
      nl_msg_put_genlmsghdr (\<lambda>_. 170) 41 [] \<lparr>sock_fd = 3, sock_pid = 9\<rparr> 0 16 1 3 1 = Some (seq', hdr)
      \<and> nl_msg_put_u16 (\<lambda>_. 170) hdr 1 4660 = Some msg
      \<and> nl_policy_parse msg
            [\<lparr>pol_type = NL_A_NO_ATTR, pol_min_len = 0, pol_max_len = 0, pol_optional = False\<rparr>,
             \<lparr>pol_type = NL_A_U16, pol_min_len = 0, pol_max_len = 0, pol_optional = False\<rparr>]
          = PARSE_OK attrs
      \<and> nl_attr_get_u16 msg (attrs ! 1) = Some 4660"
proof -
  let ?pol = "[\<lparr>pol_type = NL_A_NO_ATTR, pol_min_len = 0, pol_max_len = 0, pol_optional = False\<rparr>,
               \<lparr>pol_type = NL_A_U16, pol_min_len = 0, pol_max_len = 0, pol_optional = False\<rparr>]"
  have a: "unat (1::u16) < length ?pol" by simp
  have b: "\<forall>i<length ?pol. i \<noteq> unat (1::u16) \<longrightarrow> pol_type (?pol ! i) = NL_A_NO_ATTR"
    by (simp add: less_Suc_eq)
  have c: "pol_min_len (?pol ! unat (1::u16)) = 0" "pol_max_len (?pol ! unat (1::u16)) = 0" by simp_all
  have d: "pol_type (?pol ! unat (1::u16)) = NL_A_U16" by simp
  have u1: "unat (1::u16) = 1" by simp
  note th = put_parse_get_roundtrip[OF a b c, of "\<lambda>_. 170" 41 "\<lparr>sock_fd = 3, sock_pid = 9\<rparr>" 0 16 1 3 1 0 4660 0 0]
  from th obtain seq' hdr where
    h: "nl_msg_put_genlmsghdr (\<lambda>_. 170) 41 [] \<lparr>sock_fd = 3, sock_pid = 9\<rparr> 0 16 1 3 1 = Some (seq', hdr)"
    and r: "pol_type (?pol ! unat (1::u16)) = NL_A_U16 \<longrightarrow>
            (\<exists>msg attrs. nl_msg_put_u16 (\<lambda>_. 170) hdr 1 4660 = Some msg
               \<and> nl_policy_parse msg ?pol = PARSE_OK attrs
               \<and> nl_attr_get_u16 msg (attrs ! unat (1::u16)) = Some 4660)"
    by (elim exE conjE) (rule that)
  from r[THEN mp, OF d] obtain msg attrs where m: "nl_msg_put_u16 (\<lambda>_. 170) hdr 1 4660 = Some msg"
      "nl_policy_parse msg ?pol = PARSE_OK attrs"
      "nl_attr_get_u16 msg (attrs ! unat (1::u16)) = Some 4660"
    by (elim exE conjE) (rule that)
  have "nl_attr_get_u16 msg (attrs ! 1) = Some 4660" using m(3) by (simp only: u1)
  with h m(1,2) show ?thesis by (intro exI conjI)
qed

lemma parse_attr_Stop: "nl_policy_parse_attr msg pol p attrs n = Stop r \<Longrightarrow> r \<noteq> PARSE_OK a"
  by (auto simp: nl_policy_parse_attr_def nl_string_check_def Let_def split: option.splits if_splits)

lemma parse_attr_Next_case:
  "nl_policy_parse_attr msg pol p attrs n = Next p' attrs'' n'' \<Longrightarrow>
     (case load_u16 msg p of None \<Rightarrow> False
      | Some l \<Rightarrow> \<not> unat l < NLA_HDRLEN \<and> p' = p + NLA_ALIGN (unat l)
          \<and> (case load_u16 msg (p + 2) of None \<Rightarrow> False
               | Some ty \<Rightarrow> attrs'' = (if unat ty < length pol \<and> pol_type (pol ! unat ty) \<noteq> NL_A_NO_ATTR
                      then attrs[unat ty := Some p] else attrs)))"
  by (auto simp: nl_policy_parse_attr_def Let_def split: option.splits if_splits)

lemma parse_attr_Next:
  "nl_policy_parse_attr msg pol p attrs n = Next p' attrs'' n'' \<Longrightarrow>
     \<exists>l ty. load_u16 msg p = Some l \<and> \<not> unat l < NLA_HDRLEN \<and> load_u16 msg (p + 2) = Some ty
        \<and> p' = p + NLA_ALIGN (unat l)
        \<and> attrs'' = (if unat ty < length pol \<and> pol_type (pol ! unat ty) \<noteq> NL_A_NO_ATTR
                      then attrs[unat ty := Some p] else attrs)"
proof -
  assume "nl_policy_parse_attr msg pol p attrs n = Next p' attrs'' n''"
  from parse_attr_Next_case[OF this] show ?thesis
    by (cases "load_u16 msg p"; cases "load_u16 msg (p + 2)") simp_all
qed

lemma loop_last_wins:
  "nl_policy_parse_loop msg pol p attrs n = PARSE_OK attrs' \<Longrightarrow> t < length pol \<Longrightarrow>
   pol_type (pol ! t) \<noteq> NL_A_NO_ATTR \<Longrightarrow> length attrs = length pol \<Longrightarrow>
   attrs' ! t = (case filter (\<lambda>q. map_option unat (load_u16 msg (q + 2)) = Some t) (nl_attr_walk msg p) of
                   [] \<Rightarrow> attrs ! t | x # xs \<Rightarrow> Some (last (x # xs)))"
proof (induction msg pol p attrs n rule: nl_policy_parse_loop.induct)
  case (1 msg policy p attrs n_required)
  let ?is = "\<lambda>q. map_option unat (load_u16 msg (q + 2)) = Some t"
  show ?case
  proof (cases "p < buffer_tail msg")
    case False
    then have "attrs' = attrs" using "1.prems"(1)
      by (subst (asm) nl_policy_parse_loop.simps) (simp split: if_splits)
    moreover have "nl_attr_walk msg p = []" using False
      by (subst nl_attr_walk.simps) simp
    ultimately show ?thesis by simp
  next
    case True
    obtain p' attrs'' n'' where st: "nl_policy_parse_attr msg policy p attrs n_required = Next p' attrs'' n''"
      and rest: "nl_policy_parse_loop msg policy p' attrs'' n'' = PARSE_OK attrs'"
      using "1.prems"(1) True
      by (subst (asm) nl_policy_parse_loop.simps)
         (auto split: parse_step.splits dest: parse_attr_Stop)
    from parse_attr_Next[OF st] obtain l ty where
      n: "load_u16 msg p = Some l" "\<not> unat l < NLA_HDRLEN" "load_u16 msg (p + 2) = Some ty"
         "p' = p + NLA_ALIGN (unat l)"
         "attrs'' = (if unat ty < length policy \<and> pol_type (policy ! unat ty) \<noteq> NL_A_NO_ATTR
                      then attrs[unat ty := Some p] else attrs)"
      by blast
    have len: "length attrs'' = length policy" using n(5) "1.prems"(4) by simp
    have walk: "nl_attr_walk msg p = p # nl_attr_walk msg p'"
      using True n(1,2,4) by (subst nl_attr_walk.simps) simp
    have IH: "attrs' ! t = (case filter ?is (nl_attr_walk msg p') of
                   [] \<Rightarrow> attrs'' ! t | x # xs \<Rightarrow> Some (last (x # xs)))"
      using "1.IH"[OF True st rest "1.prems"(2,3) len] .
    show ?thesis
    proof (cases "filter ?is (nl_attr_walk msg p')")
      case (Cons x xs)
      then show ?thesis using IH by (simp add: walk)
    next
      case Nil
      show ?thesis
      proof (cases "unat ty = t")
        case True
        then have "attrs'' ! t = Some p"
          using n(5) "1.prems"(2,3,4) by simp
        then show ?thesis using IH Nil True n(3) by (simp add: walk)
      next
        case False
        then have "attrs'' ! t = attrs ! t" using n(5) by simp
        then show ?thesis using IH Nil False n(3) by (simp add: walk)
      qed
    qed
  qed
qed

text \<open>
  Claim C4, as amended.  When \<open>nl_policy_parse\<close> returns true and the attribute stream
  holds one or more attributes of a type \<open>t\<close> that has a policy entry, \<open>attrs[t]\<close> points
  to the last of them in the stream: each later occurrence overwrites the pointer.
\<close>

theorem nl_policy_parse_last_occurrence:
  assumes "nl_policy_parse msg policy = PARSE_OK attrs"
    and "t < length policy" and "pol_type (policy ! t) \<noteq> NL_A_NO_ATTR"
    and "nl_attr_occurrences msg t \<noteq> []"
  shows "attrs ! t = Some (last (nl_attr_occurrences msg t))"
proof -
  have "nl_policy_parse_loop msg policy (NLMSG_HDRLEN + GENL_HDRLEN) (replicate (length policy) None)
          (nl_count_required policy) = PARSE_OK attrs"
    using assms(1) by (simp add: nl_policy_parse_def buffer_at_def Let_def split: if_splits)
  from loop_last_wins[OF this assms(2,3)] assms(4) show ?thesis
    by (simp add: nl_attr_occurrences_def split: list.splits)
qed

theorem nl_policy_parse_last_occurrence_witness:
  "nl_policy_parse (replicate 20 0 @ [5,0,1,0,7,0,0,0] @ [5,0,1,0,9,0,0,0])
     [\<lparr>pol_type = NL_A_NO_ATTR, pol_min_len = 0, pol_max_len = 0, pol_optional = False\<rparr>,
      \<lparr>pol_type = NL_A_U8, pol_min_len = 0, pol_max_len = 0, pol_optional = False\<rparr>]
     = PARSE_OK [None, Some 28]
   \<and> nl_attr_occurrences (replicate 20 0 @ [5,0,1,0,7,0,0,0] @ [5,0,1,0,9,0,0,0]) 1 = [20, 28]
   \<and> [None, Some 28] ! 1
       = Some (last (nl_attr_occurrences (replicate 20 0 @ [5,0,1,0,7,0,0,0] @ [5,0,1,0,9,0,0,0]) 1))"
proof -
  let ?m = "replicate 20 0 @ [5,0,1,0,7,0,0,0] @ [5,0,1,0,9,0,0,0] :: u8 list"
  let ?pol = "[\<lparr>pol_type = NL_A_NO_ATTR, pol_min_len = 0, pol_max_len = 0, pol_optional = False\<rparr>,
               \<lparr>pol_type = NL_A_U8, pol_min_len = 0, pol_max_len = 0, pol_optional = False\<rparr>]"
  have p: "nl_policy_parse ?m ?pol = PARSE_OK [None, Some 28]"
    by code_simp
  have o: "nl_attr_occurrences ?m 1 = [20, 28]"
    by code_simp
  have t: "1 < length ?pol" "pol_type (?pol ! 1) \<noteq> NL_A_NO_ATTR" by simp_all
  have ne: "nl_attr_occurrences ?m 1 \<noteq> []" by (simp only: o) simp
  from nl_policy_parse_last_occurrence[OF p t ne] p o show ?thesis by simp
qed

text \<open>
  Claim C4 as stated (the first occurrence wins) fails: with two attributes of type 1
  at offsets 20 and 28, \<open>attrs[1]\<close> is not the first of them.
\<close>

theorem nl_policy_parse_first_occurrence_counterexample:
  "\<not> (\<forall>attrs. nl_policy_parse (replicate 20 0 @ [5,0,1,0,7,0,0,0] @ [5,0,1,0,9,0,0,0])
     [\<lparr>pol_type = NL_A_NO_ATTR, pol_min_len = 0, pol_max_len = 0, pol_optional = False\<rparr>,
      \<lparr>pol_type = NL_A_U8, pol_min_len = 0, pol_max_len = 0, pol_optional = False\<rparr>] = PARSE_OK attrs
    \<longrightarrow> attrs ! 1 = Some (hd (nl_attr_occurrences (replicate 20 0 @ [5,0,1,0,7,0,0,0] @ [5,0,1,0,9,0,0,0]) 1)))"
proof -
  have p: "nl_policy_parse (replicate 20 0 @ [5,0,1,0,7,0,0,0] @ [5,0,1,0,9,0,0,0])
     [\<lparr>pol_type = NL_A_NO_ATTR, pol_min_len = 0, pol_max_len = 0, pol_optional = False\<rparr>,
      \<lparr>pol_type = NL_A_U8, pol_min_len = 0, pol_max_len = 0, pol_optional = False\<rparr>] = PARSE_OK [None, Some 28]"
    by code_simp
  have o: "nl_attr_occurrences (replicate 20 0 @ [5,0,1,0,7,0,0,0] @ [5,0,1,0,9,0,0,0]) 1 = [20, 28]"
    by code_simp
  show ?thesis using p o by simp
qed

text \<open>
  Claim C1 at its failing inputs.  A 24-byte message whose only attribute header says
  \<open>nla_len = 8\<close> (so the attribute would end at offset 28) is accepted under a u32
  policy: the loop compares the aligned payload length 4, not the aligned total
  length 8, with the 4 bytes left; the pointer stored in \<open>attrs[0]\<close> names an attribute
  that extends past the tail, and reading its value is out of bounds.  With a single
  byte left (here the low byte of \<open>nla_len = 3\<close>), the read of \<open>nla_len\<close> itself is out
  of bounds.  With the whole header inside the payload, \<open>nla_len = 3\<close> is rejected.
\<close>

theorem nl_policy_parse_overlong_attr:
  "nl_policy_parse (replicate 20 0 @ [8,0,0,0])
      [\<lparr>pol_type = NL_A_U32, pol_min_len = 0, pol_max_len = 0, pol_optional = False\<rparr>]
     = PARSE_OK [Some 20]
   \<and> map_option unat (load_u16 (replicate 20 0 @ [8,0,0,0]) 20) = Some 8
   \<and> buffer_tail (replicate 20 0 @ [8,0,0,0]) = 24
   \<and> nl_attr_get_u32 (replicate 20 0 @ [8,0,0,0]) (Some 20) = None
   \<and> nl_policy_parse (replicate 20 0 @ [3]) [] = PARSE_OOB
   \<and> nl_policy_parse (replicate 20 0 @ [3,0,0,0]) [] = PARSE_FAIL"
  by code_simp

section \<open>TCP virtual connections: proofs\<close>

lemma sys_write_short:
  assumes "tx_error s = None" "tx_space s < length b"
  shows "sys_write s b =
     (if tx_space s = 0 then (Inl EAGAIN, s)
      else (Inr (tx_space s), s\<lparr>tx_space := 0, tx_wire := tx_wire s @ take (tx_space s) b\<rparr>))"
  using assms by (auto simp: sys_write_def Let_def min_def)

lemma sys_write_full:
  assumes "tx_error s = None" "length b \<le> tx_space s" "b \<noteq> []"
  shows "sys_write s b =
     (Inr (length b), s\<lparr>tx_space := tx_space s - length b, tx_wire := tx_wire s @ b\<rparr>)"
  using assms by (auto simp: sys_write_def Let_def min_def)

text \<open>
  Claim C7.  Let a connection have nothing staged and no pending socket error, and let
  the send buffer of its socket have room for fewer bytes than the message \<open>b\<close> holds
  (for none at all: \<open>write\<close> fails with \<open>EAGAIN\<close>).  Then \<open>tcp_send\<close> returns 0, has
  written the prefix that fitted, and has staged in \<open>txbuf\<close> the message pulled by the
  number of bytes written.  Once the socket has room for the remainder, \<open>tcp_postpoll\<close>
  with \<open>POLLOUT\<close> set writes it, clears \<open>txbuf\<close> and leaves \<open>revents\<close> as it was.  The
  bytes on the wire are then the same as after one \<open>tcp_send\<close> on a socket that takes
  the whole message at once: what was on the wire before, followed by \<open>b\<close>.
\<close>

theorem tcp_short_write_then_flush:
  assumes idle: "txbuf tcp = None" and noerr: "tx_error (tcp_fd tcp) = None"
    and short: "tx_space (tcp_fd tcp) < length b"
    and room: "length b - tx_space (tcp_fd tcp) \<le> c2"
    and full: "length b \<le> c"
    and out: "revents AND POLLOUT \<noteq> 0"
  shows "\<exists>tcp1 tcp2 tcpf.
       tcp_send tcp b = Some (0, tcp1)
     \<and> txbuf tcp1 = buffer_pull b (tx_space (tcp_fd tcp))
     \<and> tx_wire (tcp_fd tcp1) = tx_wire (tcp_fd tcp) @ take (tx_space (tcp_fd tcp)) b
     \<and> tcp_postpoll (tcp1\<lparr>tcp_fd := sock_drained c2 (tcp_fd tcp1)\<rparr>) revents = Some (tcp2, revents)
     \<and> txbuf tcp2 = None
     \<and> tcp_send (tcp\<lparr>tcp_fd := sock_drained c (tcp_fd tcp)\<rparr>) b = Some (0, tcpf)
     \<and> txbuf tcpf = None
     \<and> tx_wire (tcp_fd tcp2) = tx_wire (tcp_fd tcp) @ b
     \<and> tx_wire (tcp_fd tcpf) = tx_wire (tcp_fd tcp) @ b"
proof -
  let ?s = "tcp_fd tcp" and ?n = "tx_space (tcp_fd tcp)"
  have ne: "b \<noteq> []" using short by auto
  define s1 where "s1 = (if ?n = 0 then ?s else ?s\<lparr>tx_space := 0, tx_wire := tx_wire ?s @ take ?n b\<rparr>)"
  define tcp1 where "tcp1 = tcp\<lparr>tcp_fd := s1, txbuf := Some (drop ?n b)\<rparr>"
  have send1: "tcp_send tcp b = Some (0, tcp1)"
    using idle short
    by (simp add: tcp_send_def sys_write_short[OF noerr short] buffer_pull_def tcp1_def s1_def)
  have tx1: "txbuf tcp1 = buffer_pull b ?n"
    using short by (simp add: tcp1_def buffer_pull_def)
  have w1: "tx_wire (tcp_fd tcp1) = tx_wire ?s @ take ?n b"
    by (simp add: tcp1_def s1_def)
  let ?rest = "drop ?n b"
  let ?sd = "sock_drained c2 s1"
  have e1: "tx_error ?sd = None" using noerr by (simp add: sock_drained_def s1_def)
  have r1: "length ?rest \<le> tx_space ?sd" using room by (simp add: sock_drained_def)
  have rne: "?rest \<noteq> []" using short by simp
  define tcp2 where "tcp2 = tcp1\<lparr>tcp_fd := ?sd\<lparr>tx_space := tx_space ?sd - length ?rest,
                                    tx_wire := tx_wire ?sd @ ?rest\<rparr>, txbuf := None\<rparr>"
  have post: "tcp_postpoll (tcp1\<lparr>tcp_fd := sock_drained c2 (tcp_fd tcp1)\<rparr>) revents = Some (tcp2, revents)"
    using out rne short
    by (simp add: tcp_postpoll_def tcp1_def sys_write_full[OF e1 r1 rne] buffer_pull_def tcp2_def)
  have tx2: "txbuf tcp2 = None" by (simp add: tcp2_def)
  have w2: "tx_wire (tcp_fd tcp2) = tx_wire ?s @ b"
    by (simp add: tcp2_def sock_drained_def s1_def)
  let ?sf = "sock_drained c ?s"
  have ef: "tx_error ?sf = None" using noerr by (simp add: sock_drained_def)
  have rf: "length b \<le> tx_space ?sf" using full by (simp add: sock_drained_def)
  define tcpf where "tcpf = tcp\<lparr>tcp_fd := ?sf\<lparr>tx_space := tx_space ?sf - length b, tx_wire := tx_wire ?sf @ b\<rparr>\<rparr>"
  have sendf: "tcp_send (tcp\<lparr>tcp_fd := sock_drained c (tcp_fd tcp)\<rparr>) b = Some (0, tcpf)"
    using idle by (simp add: tcp_send_def sys_write_full[OF ef rf ne] tcpf_def)
  have txf: "txbuf tcpf = None" using idle by (simp add: tcpf_def)
  have wf: "tx_wire (tcp_fd tcpf) = tx_wire ?s @ b" by (simp add: tcpf_def sock_drained_def)
  show ?thesis
    using send1 tx1 w1 post tx2 sendf txf w2 wf by blast
qed

theorem tcp_short_write_then_flush_witness:
  "\<exists>tcp1 tcp2 tcpf.
       tcp_send \<lparr>tcp_fd = \<lparr>rx_pending = [], rx_closed = False, tx_space = 2, tx_wire = [7],
                            tx_error = None\<rparr>, rxbuf = None, txbuf = None\<rparr>
                [1, 2, 3, 4, 5 :: u8] = Some (0, tcp1)
     \<and> txbuf tcp1 = Some [3, 4, 5]
     \<and> tcp_postpoll (tcp1\<lparr>tcp_fd := sock_drained 3 (tcp_fd tcp1)\<rparr>) POLLOUT = Some (tcp2, POLLOUT)
     \<and> txbuf tcp2 = None
     \<and> tcp_send \<lparr>tcp_fd = \<lparr>rx_pending = [], rx_closed = False, tx_space = 5, tx_wire = [7],
                            tx_error = None\<rparr>, rxbuf = None, txbuf = None\<rparr>
                [1, 2, 3, 4, 5 :: u8] = Some (0, tcpf)
     \<and> tx_wire (tcp_fd tcp2) = [7, 1, 2, 3, 4, 5]
     \<and> tx_wire (tcp_fd tcpf) = [7, 1, 2, 3, 4, 5]"
proof -
  let ?tcp = "\<lparr>tcp_fd = \<lparr>rx_pending = [], rx_closed = False, tx_space = 2, tx_wire = [7::u8],
                           tx_error = None\<rparr>, rxbuf = None, txbuf = None\<rparr>"
  have a: "txbuf ?tcp = None" "tx_error (tcp_fd ?tcp) = None" by simp_all
  have b: "tx_space (tcp_fd ?tcp) < length [1, 2, 3, 4, 5 :: u8]" by simp
  have c: "length [1, 2, 3, 4, 5 :: u8] - tx_space (tcp_fd ?tcp) \<le> 3" by simp
  have d: "length [1, 2, 3, 4, 5 :: u8] \<le> 5" by simp
  have e: "POLLOUT AND POLLOUT \<noteq> 0" by (simp add: POLLOUT_def)
  from tcp_short_write_then_flush[OF a b c d e]
  obtain tcp1 tcp2 tcpf where
    h1: "tcp_send ?tcp [1, 2, 3, 4, 5] = Some (0, tcp1)"
    and h2: "txbuf tcp1 = buffer_pull [1, 2, 3, 4, 5] (tx_space (tcp_fd ?tcp))"
    and h3: "tx_wire (tcp_fd tcp1) = tx_wire (tcp_fd ?tcp) @ take (tx_space (tcp_fd ?tcp)) [1, 2, 3, 4, 5]"
    and h4: "tcp_postpoll (tcp1\<lparr>tcp_fd := sock_drained 3 (tcp_fd tcp1)\<rparr>) POLLOUT = Some (tcp2, POLLOUT)"
    and h5: "txbuf tcp2 = None"
    and h6: "tcp_send (?tcp\<lparr>tcp_fd := sock_drained 5 (tcp_fd ?tcp)\<rparr>) [1, 2, 3, 4, 5] = Some (0, tcpf)"
    and h7: "txbuf tcpf = None"
    and h8: "tx_wire (tcp_fd tcp2) = tx_wire (tcp_fd ?tcp) @ [1, 2, 3, 4, 5]"
    and h9: "tx_wire (tcp_fd tcpf) = tx_wire (tcp_fd ?tcp) @ [1, 2, 3, 4, 5]"
    by (elim exE conjE) (rule that)
  have p: "txbuf tcp1 = Some [3, 4, 5]" using h2 by (simp add: buffer_pull_def)
  have w2: "tx_wire (tcp_fd tcp2) = [7, 1, 2, 3, 4, 5]" using h8 by simp
  have wf: "tx_wire (tcp_fd tcpf) = [7, 1, 2, 3, 4, 5]" using h9 by simp
  have f: "tcp_send \<lparr>tcp_fd = \<lparr>rx_pending = [], rx_closed = False, tx_space = 5, tx_wire = [7],
                               tx_error = None\<rparr>, rxbuf = None, txbuf = None\<rparr>
             [1, 2, 3, 4, 5 :: u8] = Some (0, tcpf)"
    using h6 by (simp add: sock_drained_def)
  show ?thesis
    by (rule exI[of _ tcp1], rule exI[of _ tcp2], rule exI[of _ tcpf])
       (intro conjI h1 p h4 h5 f w2 wf)
qed

text \<open>
  Claim C2.  A peer delivers a frame whose length field, 16 bits in network byte
  order in the third and fourth byte, is 8 = \<open>sizeof(struct ofp_header)\<close>: the eight
  header bytes and no payload (whatever follows belongs to the next frame).  On a
  connection with an empty receive slot \<open>tcp_recv\<close> reads the eight bytes and returns
  \<open>EPROTO\<close> without handing over a buffer; the frame stays in \<open>rxbuf\<close>.  Every further
  \<open>tcp_recv\<close> returns \<open>EPROTO\<close> again and changes nothing, so the frame is never
  delivered.  (After the header is read, \<open>rx->size > sizeof(struct ofp_header)\<close> is
  false, the function goes back to \<open>again\<close>, computes \<open>want_bytes = 0\<close>, and takes the
  0 that the read of no bytes returns for the end of the stream.)
\<close>

theorem tcp_recv_header_only_frame:
  "tcp_recv \<lparr>tcp_fd = \<lparr>rx_pending = [v, t, 0, 8, x0, x1, x2, x3] @ rest, rx_closed = cl,
                        tx_space = sp, tx_wire = w, tx_error = er\<rparr>,
             rxbuf = None, txbuf = tb\<rparr>
     = ((EPROTO, None),
        \<lparr>tcp_fd = \<lparr>rx_pending = rest, rx_closed = cl, tx_space = sp, tx_wire = w, tx_error = er\<rparr>,
         rxbuf = Some [v, t, 0, 8, x0, x1, x2, x3], txbuf = tb\<rparr>)
   \<and> tcp_recv \<lparr>tcp_fd = \<lparr>rx_pending = rest, rx_closed = cl, tx_space = sp, tx_wire = w,
                          tx_error = er\<rparr>,
               rxbuf = Some [v, t, 0, 8, x0, x1, x2, x3], txbuf = tb\<rparr>
     = ((EPROTO, None),
        \<lparr>tcp_fd = \<lparr>rx_pending = rest, rx_closed = cl, tx_space = sp, tx_wire = w, tx_error = er\<rparr>,
         rxbuf = Some [v, t, 0, 8, x0, x1, x2, x3], txbuf = tb\<rparr>)"
proof -
  let ?f = "[v, t, 0, 8, x0, x1, x2, x3]"
  let ?s0 = "\<lparr>rx_pending = ?f @ rest, rx_closed = cl, tx_space = sp, tx_wire = w, tx_error = er\<rparr>"
  let ?s1 = "\<lparr>rx_pending = rest, rx_closed = cl, tx_space = sp, tx_wire = w, tx_error = er\<rparr>"
  have len: "ofp_length ?f = 8" by (simp add: ofp_length_def)
  have st0: "tcp_recv_step ?s0 [] = Again ?s1 ?f"
    by (simp add: tcp_recv_step_def OFP_HEADER_LEN_def sys_read_def)
  have st1: "tcp_recv_step ?s1 ?f = Done ((EPROTO, None), ?s1, Some ?f)"
    by (simp add: tcp_recv_step_def OFP_HEADER_LEN_def sys_read_def len)
  have a1: "tcp_recv_again ?s1 ?f = ((EPROTO, None), ?s1, Some ?f)"
    by (subst tcp_recv_again.simps) (simp only: st1 recv_step.simps)
  have a0: "tcp_recv_again ?s0 [] = ((EPROTO, None), ?s1, Some ?f)"
    by (subst tcp_recv_again.simps) (simp only: st0 recv_step.simps a1)
  show ?thesis
    unfolding tcp_recv_def
    by (simp only: tcp_vconn.simps option.simps Let_def a0 a1 prod.case)
qed

text \<open>
  Whenever \<open>tcp_recv\<close> does hand over a buffer, the buffer is longer than the header.
\<close>

lemma tcp_recv_again_ok_size:
  "tcp_recv_again s rx = ((0, Some b), s', r') \<Longrightarrow> OFP_HEADER_LEN < length b"
proof (induction s rx rule: tcp_recv_again.induct)
  case (1 s rx)
  show ?case
  proof (cases "tcp_recv_step s rx")
    case (Again s2 rx2)
    then show ?thesis using 1 by (subst (asm) tcp_recv_again.simps) simp
  next
    case (Done r)
    then have "r = ((0, Some b), s', r')"
      using "1.prems" by (subst (asm) tcp_recv_again.simps) simp
    then show ?thesis using Done
      by (auto simp: tcp_recv_step_def Let_def errno_defs EOF_def
               split: if_splits prod.splits sum.splits)
  qed
qed

section \<open>Netlink sockets: proofs\<close>

lemma store_bytes_idem:
  "off + length bs \<le> length b \<Longrightarrow> store_bytes (store_bytes b off bs) off bs = store_bytes b off bs"
  by (simp add: store_bytes_def)

lemma load_store_same:
  "off + length bs \<le> length b \<Longrightarrow> load_bytes (store_bytes b off bs) off (length bs) = Some bs"
  by (simp add: load_bytes_def store_bytes_def)

lemma load_store_before:
  assumes "off + length bs \<le> length b" "off' + n \<le> off"
  shows "load_bytes (store_bytes b off bs) off' n = load_bytes b off' n"
proof -
  have "take n (drop off' (take off b @ bs @ drop (off + length bs) b)) = take n (drop off' b)"
    using assms by (intro nth_equalityI) (auto simp: nth_append)
  then show ?thesis
    using assms by (simp add: load_bytes_def store_bytes_def)
qed

lemma load_store_after:
  assumes "off + length bs \<le> length b" "off + length bs \<le> off'"
  shows "load_bytes (store_bytes b off bs) off' n = load_bytes b off' n"
proof -
  have "drop off' (take off b @ bs @ drop (off + length bs) b) = drop off' b"
    using assms by (intro nth_equalityI) (auto simp: nth_append)
  then show ?thesis
    using assms by (simp add: load_bytes_def store_bytes_def)
qed

lemma nl_recv_bufsize_ge: "0 < bufsize \<Longrightarrow> dlen \<le> nl_recv_bufsize dlen bufsize"
proof (induction dlen bufsize rule: nl_recv_bufsize.induct)
  case (1 dlen bufsize)
  then show ?case by (subst nl_recv_bufsize.simps) auto
qed

lemma nl_sock_recv_dgram:
  assumes "NLMSG_OK d (length d)"
  shows "nl_sock_recv (NL_DGRAM d # q) wait = Return ((0, Some d), q)"
proof -
  have "take (nl_recv_bufsize (length d) 2048) d = d"
    using nl_recv_bufsize_ge[of 2048 "length d"] by simp
  then show ?thesis using assms by (simp add: Let_def)
qed

text \<open>The header fields of the request as \<open>nl_sock_transact\<close> sends it.\<close>

lemma nl_request_wire_fields:
  assumes "NLMSG_HDRLEN \<le> length request"
  shows "length (nl_request_wire request) = length request"
    and "nlmsg_seq (nl_request_wire request) = nlmsg_seq request"
    and "nlmsg_flags (nl_request_wire request)
           = Some (le_word (take 2 (drop 6 request)) OR NLM_F_ACK)"
    and "nlmsg_len (nl_request_wire request) = Some (word_of_nat (length request))"
    and "store_u32 (nl_request_wire request) 0 (word_of_nat (length (nl_request_wire request)))
           = nl_request_wire request"
proof -
  let ?f = "le_word (take 2 (drop 6 request)) OR NLM_F_ACK :: u16"
  let ?r1 = "store_bytes request 6 (le_bytes 2 ?f)"
  let ?n = "word_of_nat (length request) :: u32"
  have l1: "length ?r1 = length request"
    using assms by (simp add: length_store_bytes NLMSG_HDRLEN_def)
  have w: "nl_request_wire request = store_bytes ?r1 0 (le_bytes 4 ?n)"
    by (simp add: nl_request_wire_def store_u16_def store_u32_def)
  show len: "length (nl_request_wire request) = length request"
    using assms l1 by (simp add: w length_store_bytes NLMSG_HDRLEN_def)
  have "load_bytes (nl_request_wire request) 8 4 = load_bytes ?r1 8 4"
    unfolding w using assms l1 by (intro load_store_after) (simp_all add: NLMSG_HDRLEN_def)
  also have "\<dots> = load_bytes request 8 4"
    using assms by (intro load_store_after) (simp_all add: NLMSG_HDRLEN_def)
  finally show "nlmsg_seq (nl_request_wire request) = nlmsg_seq request"
    by (simp add: nlmsg_seq_def load_u32_def)
  have "load_bytes (nl_request_wire request) 6 2 = load_bytes ?r1 6 2"
    unfolding w using assms l1 by (intro load_store_after) (simp_all add: NLMSG_HDRLEN_def)
  also have "\<dots> = Some (le_bytes 2 ?f)"
    using load_store_same[of 6 "le_bytes 2 ?f" request] assms by (simp add: NLMSG_HDRLEN_def)
  finally show "nlmsg_flags (nl_request_wire request) = Some ?f"
    by (simp add: nlmsg_flags_def load_u16_def le_word_le_bytes_u16)
  have "load_bytes (nl_request_wire request) 0 4 = Some (le_bytes 4 ?n)"
    unfolding w using load_store_same[of 0 "le_bytes 4 ?n" ?r1] assms l1
    by (simp add: NLMSG_HDRLEN_def)
  then show "nlmsg_len (nl_request_wire request) = Some ?n"
    by (simp add: nlmsg_len_def load_u32_def le_word_le_bytes_u32)
  show "store_u32 (nl_request_wire request) 0 (word_of_nat (length (nl_request_wire request)))
           = nl_request_wire request"
    unfolding len unfolding w store_u32_def
    using assms l1 by (intro store_bytes_idem) (simp add: NLMSG_HDRLEN_def)
qed

text \<open>
  Sending a request whose length field, once finalised, makes it \<open>W\<close>: the socket
  gets \<open>W\<close> if the \<open>send\<close> succeeds, and the request is \<open>W\<close> afterwards.
\<close>

lemma nl_sock_send_wire:
  assumes "NLMSG_HDRLEN \<le> length r" "store_u32 r 0 (word_of_nat (length r)) = W"
  shows "nl_sock_send k r wait =
           Return ((fst (nl_send_loop (k_send k)), W),
                   k\<lparr>k_send := snd (nl_send_loop (k_send k)),
                     k_sent := (if fst (nl_send_loop (k_send k)) = 0 then k_sent k @ [W]
                                else k_sent k)\<rparr>)"
  using assms
  by (simp add: nl_sock_send_def buffer_at_def Let_def split: prod.splits)

lemma nl_sock_transact_start:
  assumes "NLMSG_HDRLEN \<le> length request"
  shows "\<exists>s r1. nlmsg_seq request = Some s
           \<and> NLMSG_HDRLEN \<le> length r1
           \<and> store_u32 r1 0 (word_of_nat (length r1)) = nl_request_wire request
           \<and> nl_sock_transact k request = nl_sock_transact_from L_send k r1 s"
proof -
  let ?f = "le_word (take 2 (drop 6 request)) :: u16"
  let ?r1 = "store_u16 request 6 (?f OR NLM_F_ACK)"
  have s: "nlmsg_seq request = Some (le_word (take 4 (drop 8 request)))"
    using assms by (simp add: nlmsg_seq_def load_u32_def load_bytes_def NLMSG_HDRLEN_def)
  have f: "nlmsg_flags request = Some ?f"
    using assms by (simp add: nlmsg_flags_def load_u16_def load_bytes_def NLMSG_HDRLEN_def)
  have l: "length ?r1 = length request"
    using assms by (simp add: store_u16_def length_store_bytes NLMSG_HDRLEN_def)
  have t: "nl_sock_transact k request
             = nl_sock_transact_from L_send k ?r1 (le_word (take 4 (drop 8 request)))"
    using assms by (simp add: nl_sock_transact_def buffer_at_def s f)
  have w: "store_u32 ?r1 0 (word_of_nat (length ?r1)) = nl_request_wire request"
    by (simp add: l nl_request_wire_def)
  show ?thesis using s l w t assms by (intro exI conjI) simp_all
qed

text \<open>One pass from each label.\<close>

lemma transact_step_send:
  assumes "NLMSG_HDRLEN \<le> length r" "store_u32 r 0 (word_of_nat (length r)) = W"
  shows "nl_sock_transact_step L_send k r seq =
           (if fst (nl_send_loop (k_send k)) \<noteq> 0
            then Fin (Return ((fst (nl_send_loop (k_send k)), None),
                              k\<lparr>k_send := snd (nl_send_loop (k_send k)), k_sent := k_sent k\<rparr>, W))
            else Goto L_recv (k\<lparr>k_send := snd (nl_send_loop (k_send k)),
                                k_sent := k_sent k @ [W]\<rparr>) W)"
  by (simp add: nl_sock_transact_step_def nl_sock_send_wire[OF assms])

lemma transact_step_recv_Goto:
  "nl_sock_transact_step L_recv k r seq = Goto l2 k2 r2 \<Longrightarrow> r2 = r \<and> k_sent k2 = k_sent k"
  by (auto simp: nl_sock_transact_step_def Let_def
           split: outcome.splits option.splits prod.splits if_splits)

lemma transact_step_recv_Fin:
  "nl_sock_transact_step L_recv k r seq = Fin (Return (res, k', r'))
     \<Longrightarrow> r' = r \<and> k_sent k' = k_sent k"
  by (auto simp: nl_sock_transact_step_def Let_def
           split: outcome.splits option.splits prod.splits if_splits)

lemma transact_step_recv_accept:
  assumes "nl_sock_transact_step L_recv k r seq = Fin (Return ((rv, rp), k', r'))"
  shows "(rv \<noteq> 0 \<and> rv \<noteq> ENOBUFS \<and> rp = None
            \<and> (\<exists>x. nl_sock_recv (k_recv k) True = Return ((rv, x), k_recv k')))
       \<or> (\<exists>rep. nl_sock_recv (k_recv k) True = Return ((0, Some rep), k_recv k')
              \<and> nlmsg_seq rep = Some seq
              \<and> (nl_msg_nlmsgerr rep = Return None \<and> rv = 0 \<and> rp = Some rep
                 \<or> (\<exists>code. nl_msg_nlmsgerr rep = Return (Some code) \<and> rp = None
                        \<and> rv = (if code \<noteq> EAGAIN then code else EPROTO))))"
  using assms
  by (auto simp: nl_sock_transact_step_def Let_def
           split: outcome.splits option.splits prod.splits if_splits)

lemma transact_step_Fin_reply:
  assumes "nl_sock_transact_step l k r seq = Fin (Return ((rv, Some rep), k', r'))"
  shows "rv = 0 \<and> nlmsg_seq rep = Some seq"
proof (cases l)
  case L_send
  then show ?thesis using assms
    by (auto simp: nl_sock_transact_step_def nl_sock_send_def Let_def
             split: outcome.splits option.splits prod.splits if_splits)
next
  case L_recv
  then show ?thesis using transact_step_recv_accept[of k r seq rv "Some rep" k' r'] assms
    by auto
qed

lemma transact_step_recv_enobufs:
  "k_recv k = NL_ERRNO ENOBUFS # q
     \<Longrightarrow> nl_sock_transact_step L_recv k r seq = Goto L_send (k\<lparr>k_recv := q\<rparr>) r"
  by (simp add: nl_sock_transact_step_def errno_defs)

lemma transact_step_recv_stray:
  assumes "k_recv k = NL_DGRAM d # q" "NLMSG_OK d (length d)" "nlmsg_seq d \<noteq> Some seq"
  shows "nl_sock_transact_step L_recv k r seq = Goto L_recv (k\<lparr>k_recv := q\<rparr>) r"
proof -
  have "buffer_at d 0 NLMSG_HDRLEN = Some 0"
    using assms(2) by (simp add: NLMSG_OK_def buffer_at_def)
  then show ?thesis
    using assms
    by (simp add: nl_sock_transact_step_def nl_sock_recv_dgram[OF assms(2)] del: nl_sock_recv.simps)
qed

lemma transact_step_recv_ack:
  assumes "k_recv k = NL_DGRAM d # q" "NLMSG_OK d (length d)" "nlmsg_seq d = Some seq"
    and "nlmsg_type d = Some NLMSG_ERROR" "NLMSG_HDRLEN + NLMSGERR_LEN \<le> length d"
    and "load_u32 d NLMSG_HDRLEN = Some 0"
  shows "nl_sock_transact_step L_recv k r seq = Fin (Return ((0, None), k\<lparr>k_recv := q\<rparr>, r))"
proof -
  have a: "buffer_at d 0 NLMSG_HDRLEN = Some 0"
    using assms(2) by (simp add: NLMSG_OK_def buffer_at_def)
  have b: "buffer_at d NLMSG_HDRLEN NLMSGERR_LEN = Some NLMSG_HDRLEN"
    using assms(5) by (simp add: buffer_at_def)
  have "nl_msg_nlmsgerr d = Return (Some 0)"
    using assms(4,6) by (simp add: nl_msg_nlmsgerr_def a b INT_MIN_def)
  then show ?thesis
    using assms(1,3) a
    by (simp add: nl_sock_transact_step_def nl_sock_recv_dgram[OF assms(2)] errno_defs
             del: nl_sock_recv.simps)
qed

text \<open>
  Whatever the kernel does, a transaction that returns has sent only \<open>W\<close>, and the
  request is \<open>W\<close> afterwards.
\<close>

lemma transact_from_sent:
  assumes W: "NLMSG_HDRLEN \<le> length W" "store_u32 W 0 (word_of_nat (length W)) = W"
  shows "nl_sock_transact_from l k r seq = Return (res, k', r')
     \<Longrightarrow> NLMSG_HDRLEN \<le> length r
     \<Longrightarrow> store_u32 r 0 (word_of_nat (length r)) = W
     \<Longrightarrow> (l = L_recv \<longrightarrow> r = W)
     \<Longrightarrow> r' = W \<and> (\<exists>n. k_sent k' = k_sent k @ replicate n W)"
proof (induction l k r seq rule: nl_sock_transact_from.induct)
  case (1 l k r seq)
  note ret = "1.prems"(1) and hdr = "1.prems"(2) and wire = "1.prems"(3) and lr = "1.prems"(4)
  show ?case
  proof (cases l)
    case L_send
    show ?thesis
    proof (cases "fst (nl_send_loop (k_send k)) = 0")
      case True
      let ?k1 = "k\<lparr>k_send := snd (nl_send_loop (k_send k)), k_sent := k_sent k @ [W]\<rparr>"
      have st: "nl_sock_transact_step l k r seq = Goto L_recv ?k1 W"
        using True L_send by (simp add: transact_step_send[OF hdr wire])
      then have "nl_sock_transact_from L_recv ?k1 W seq = Return (res, k', r')"
        using ret by (subst (asm) nl_sock_transact_from.simps) simp
      from "1.IH"[OF st this W(1) W(2)]
      obtain n where "r' = W" "k_sent k' = k_sent ?k1 @ replicate n W" by auto
      then have "r' = W \<and> k_sent k' = k_sent k @ replicate (Suc n) W" by simp
      then show ?thesis by blast
    next
      case False
      have st: "nl_sock_transact_step l k r seq =
                  Fin (Return ((fst (nl_send_loop (k_send k)), None),
                       k\<lparr>k_send := snd (nl_send_loop (k_send k)), k_sent := k_sent k\<rparr>, W))"
        using False L_send by (simp add: transact_step_send[OF hdr wire])
      have "r' = W \<and> k_sent k' = k_sent k @ replicate 0 W"
        using ret by (subst (asm) nl_sock_transact_from.simps) (auto simp: st)
      then show ?thesis by blast
    qed
  next
    case L_recv
    then have rW: "r = W" using lr by simp
    show ?thesis
    proof (cases "nl_sock_transact_step l k r seq")
      case (Goto l2 k2 r2)
      then have g: "r2 = W" "k_sent k2 = k_sent k"
        using transact_step_recv_Goto[of k r seq l2 k2 r2] L_recv rW by auto
      have "nl_sock_transact_from l2 k2 r2 seq = Return (res, k', r')"
        using ret by (subst (asm) nl_sock_transact_from.simps) (simp add: Goto)
      from "1.IH"[OF Goto this] g W show ?thesis by simp
    next
      case (Fin x)
      then have "x = Return (res, k', r')"
        using ret by (subst (asm) nl_sock_transact_from.simps) simp
      then have "r' = r \<and> k_sent k' = k_sent k @ replicate 0 W"
        using transact_step_recv_Fin[of k r seq res k' r'] Fin L_recv by simp
      then show ?thesis using rW by blast
    qed
  qed
qed

lemma transact_from_reply_seq:
  "nl_sock_transact_from l k r seq = Return ((rv, Some rep), k', r')
     \<Longrightarrow> rv = 0 \<and> nlmsg_seq rep = Some seq"
proof (induction l k r seq rule: nl_sock_transact_from.induct)
  case (1 l k r seq)
  show ?case
  proof (cases "nl_sock_transact_step l k r seq")
    case (Goto l2 k2 r2)
    have "nl_sock_transact_from l2 k2 r2 seq = Return ((rv, Some rep), k', r')"
      using "1.prems" by (subst (asm) nl_sock_transact_from.simps) (simp add: Goto)
    from "1.IH"[OF Goto this] show ?thesis .
  next
    case (Fin x)
    then have "x = Return ((rv, Some rep), k', r')"
      using "1.prems" by (subst (asm) nl_sock_transact_from.simps) simp
    then show ?thesis using transact_step_Fin_reply[of l k r seq rv rep k' r'] Fin by simp
  qed
qed

text \<open>Replies with another sequence number at the head of the queue are passed over.\<close>

lemma transact_from_strays:
  "k_recv k = map NL_DGRAM strays @ rest
     \<Longrightarrow> \<forall>d \<in> set strays. NLMSG_OK d (length d) \<and> nlmsg_seq d \<noteq> Some seq
     \<Longrightarrow> nl_sock_transact_from L_recv k r seq
           = nl_sock_transact_from L_recv (k\<lparr>k_recv := rest\<rparr>) r seq"
proof (induction strays arbitrary: k)
  case Nil
  then have "k\<lparr>k_recv := rest\<rparr> = k" by simp
  then show ?case by simp
next
  case (Cons d strays)
  have st: "nl_sock_transact_step L_recv k r seq
              = Goto L_recv (k\<lparr>k_recv := map NL_DGRAM strays @ rest\<rparr>) r"
    using Cons.prems by (intro transact_step_recv_stray[of k d]) simp_all
  have "nl_sock_transact_from L_recv k r seq
          = nl_sock_transact_from L_recv (k\<lparr>k_recv := map NL_DGRAM strays @ rest\<rparr>) r seq"
    by (subst nl_sock_transact_from.simps) (simp add: st)
  also have "\<dots> = nl_sock_transact_from L_recv
                     (k\<lparr>k_recv := map NL_DGRAM strays @ rest\<rparr>\<lparr>k_recv := rest\<rparr>) r seq"
    using Cons.prems by (intro Cons.IH) simp_all
  finally show ?case by simp
qed

text \<open>A transaction whose first \<open>send\<close> succeeds, at the label \<open>recv\<close>.\<close>

lemma nl_sock_transact_sent:
  assumes "NLMSG_HDRLEN \<le> length request" "fst (nl_send_loop (k_send k)) = 0"
  shows "\<exists>s. nlmsg_seq request = Some s
           \<and> nl_sock_transact k request
               = nl_sock_transact_from L_recv
                   (k\<lparr>k_send := snd (nl_send_loop (k_send k)),
                      k_sent := k_sent k @ [nl_request_wire request]\<rparr>)
                   (nl_request_wire request) s"
proof -
  from nl_sock_transact_start[OF assms(1), of k] obtain s r1 where
    s: "nlmsg_seq request = Some s" and h: "NLMSG_HDRLEN \<le> length r1"
    and w: "store_u32 r1 0 (word_of_nat (length r1)) = nl_request_wire request"
    and t: "nl_sock_transact k request = nl_sock_transact_from L_send k r1 s"
    by blast
  have "nl_sock_transact_from L_send k r1 s
          = nl_sock_transact_from L_recv
              (k\<lparr>k_send := snd (nl_send_loop (k_send k)),
                 k_sent := k_sent k @ [nl_request_wire request]\<rparr>)
              (nl_request_wire request) s"
    using assms(2)
    by (subst nl_sock_transact_from.simps) (simp add: transact_step_send[OF h w])
  then show ?thesis using s t by simp
qed

text \<open>From the label \<open>send\<close> on, the request and its sent form behave alike.\<close>

lemma nl_sock_transact_resend:
  assumes "NLMSG_HDRLEN \<le> length request" "nlmsg_seq request = Some s"
  shows "nl_sock_transact_from L_send k (nl_request_wire request) s = nl_sock_transact k request"
proof -
  let ?W = "nl_request_wire request"
  from nl_sock_transact_start[OF assms(1), of k] assms(2) obtain r1 where
    h: "NLMSG_HDRLEN \<le> length r1"
    and w: "store_u32 r1 0 (word_of_nat (length r1)) = ?W"
    and t: "nl_sock_transact k request = nl_sock_transact_from L_send k r1 s"
    by auto
  have hW: "NLMSG_HDRLEN \<le> length ?W" and wW: "store_u32 ?W 0 (word_of_nat (length ?W)) = ?W"
    using nl_request_wire_fields(1,5)[OF assms(1)] assms(1) by simp_all
  have "nl_sock_transact_step L_send k ?W s = nl_sock_transact_step L_send k r1 s"
    by (simp only: transact_step_send[OF hW wW] transact_step_send[OF h w])
  then have "nl_sock_transact_from L_send k ?W s = nl_sock_transact_from L_send k r1 s"
    by (subst nl_sock_transact_from.simps, subst (2) nl_sock_transact_from.simps) simp
  then show ?thesis using t by simp
qed

text \<open>A \<open>send\<close> that the kernel lets through, possibly after interruptions.\<close>

lemma nl_send_loop_ok:
  "\<forall>e \<in> set es. e = None \<or> e = Some EINTR
     \<Longrightarrow> fst (nl_send_loop es) = 0
         \<and> (\<forall>e \<in> set (snd (nl_send_loop es)). e = None \<or> e = Some EINTR)"
  by (induction es rule: nl_send_loop.induct) auto

lemma nl_msg_nlmsgerr_Return:
  assumes "NLMSG_OK d (length d)"
  shows "\<exists>c. nl_msg_nlmsgerr d = Return c"
proof -
  have l: "NLMSG_HDRLEN \<le> length d" using assms by (simp add: NLMSG_OK_def)
  then obtain ty where ty: "nlmsg_type d = Some ty"
    by (auto simp: nlmsg_type_def load_u16_def load_bytes_def NLMSG_HDRLEN_def)
  have a: "buffer_at d 0 NLMSG_HDRLEN = Some 0" using l by (simp add: buffer_at_def)
  show ?thesis
  proof (cases "NLMSG_HDRLEN + NLMSGERR_LEN \<le> length d")
    case True
    then obtain e where "load_u32 d NLMSG_HDRLEN = Some e"
      by (auto simp: load_u32_def load_bytes_def NLMSG_HDRLEN_def NLMSGERR_LEN_def)
    then show ?thesis using True
      by (simp add: nl_msg_nlmsgerr_def a ty) (simp add: buffer_at_def)
  next
    case False
    then have "buffer_at d NLMSG_HDRLEN NLMSGERR_LEN = None" by (simp add: buffer_at_def)
    then show ?thesis
      by (simp add: nl_msg_nlmsgerr_def a ty)
  qed
qed

lemma transact_step_recv_reply:
  assumes "k_recv k = NL_DGRAM d # q" "NLMSG_OK d (length d)" "nlmsg_seq d = Some seq"
    and "nl_msg_nlmsgerr d = Return c"
  shows "nl_sock_transact_step L_recv k r seq =
           Fin (Return ((case c of None \<Rightarrow> (0, Some d)
                        | Some code \<Rightarrow> (if code \<noteq> EAGAIN then code else EPROTO, None)),
                       k\<lparr>k_recv := q\<rparr>, r))"
proof -
  have a: "buffer_at d 0 NLMSG_HDRLEN = Some 0"
    using assms(2) by (simp add: NLMSG_OK_def buffer_at_def)
  show ?thesis
    using assms(1,3,4) a
    by (simp add: nl_sock_transact_step_def nl_sock_recv_dgram[OF assms(2)]
             del: nl_sock_recv.simps split: option.splits)
qed

text \<open>
  From the label \<open>recv\<close>, with \<open>W\<close> sent: what the function does with a queue that
  holds a reply with the sequence number looked for, after \<open>ENOBUFS\<close> errors and valid
  messages with other sequence numbers.
\<close>

lemma transact_from_trace:
  assumes W: "NLMSG_HDRLEN \<le> length W" "store_u32 W 0 (word_of_nat (length W)) = W"
    and v: "NLMSG_OK d (length d)" and sq: "nlmsg_seq d = Some s"
    and c: "nl_msg_nlmsgerr d = Return c"
  shows "k_recv k = pre @ NL_DGRAM d # q
     \<Longrightarrow> \<forall>e \<in> set (k_send k). e = None \<or> e = Some EINTR
     \<Longrightarrow> \<forall>e \<in> set pre. (case e of NL_ERRNO x \<Rightarrow> x = ENOBUFS
                           | NL_DGRAM d' \<Rightarrow> NLMSG_OK d' (length d') \<and> nlmsg_seq d' \<noteq> Some s)
     \<Longrightarrow> \<exists>k'. nl_sock_transact_from L_recv k W s =
                 Return ((case c of None \<Rightarrow> (0, Some d)
                          | Some code \<Rightarrow> (if code \<noteq> EAGAIN then code else EPROTO, None)),
                         k', W)
            \<and> k_send k' = ((\<lambda>es. snd (nl_send_loop es)) ^^ count_list pre (NL_ERRNO ENOBUFS))
                             (k_send k)
            \<and> k_recv k' = q
            \<and> k_sent k' = k_sent k @ replicate (count_list pre (NL_ERRNO ENOBUFS)) W"
proof (induction pre arbitrary: k)
  case Nil
  let ?res = "(case c of None \<Rightarrow> (0, Some d)
               | Some code \<Rightarrow> (if code \<noteq> EAGAIN then code else EPROTO, None))"
  have q: "k_recv k = NL_DGRAM d # q" using Nil.prems(1) by simp
  have "nl_sock_transact_from L_recv k W s = Return (?res, k\<lparr>k_recv := q\<rparr>, W)"
    by (subst nl_sock_transact_from.simps)
       (simp only: transact_step_recv_reply[OF q v sq c] transact_step.simps)
  then show ?case by (intro exI[of _ "k\<lparr>k_recv := q\<rparr>"]) simp
next
  case (Cons e pre)
  let ?rest = "pre @ NL_DGRAM d # q"
  let ?F = "\<lambda>es. snd (nl_send_loop es)"
  let ?res = "(case c of None \<Rightarrow> (0, Some d)
               | Some code \<Rightarrow> (if code \<noteq> EAGAIN then code else EPROTO, None))"
  have pre: "\<forall>e \<in> set pre. (case e of NL_ERRNO x \<Rightarrow> x = ENOBUFS
                           | NL_DGRAM d' \<Rightarrow> NLMSG_OK d' (length d') \<and> nlmsg_seq d' \<noteq> Some s)"
    using Cons.prems(3) by simp
  show ?case
  proof (cases e)
    case (NL_ERRNO x)
    then have x: "x = ENOBUFS" using Cons.prems(3) by simp
    have q: "k_recv k = NL_ERRNO ENOBUFS # ?rest" using Cons.prems(1) NL_ERRNO x by simp
    let ?k1 = "k\<lparr>k_recv := ?rest\<rparr>"
    let ?k2 = "?k1\<lparr>k_send := ?F (k_send ?k1), k_sent := k_sent ?k1 @ [W]\<rparr>"
    have ok: "fst (nl_send_loop (k_send ?k1)) = 0"
      and ok': "\<forall>e \<in> set (k_send ?k2). e = None \<or> e = Some EINTR"
      using nl_send_loop_ok[OF Cons.prems(2)] by simp_all
    have s1: "nl_sock_transact_from L_recv k W s = nl_sock_transact_from L_send ?k1 W s"
      by (subst nl_sock_transact_from.simps)
         (simp only: transact_step_recv_enobufs[OF q] transact_step.simps)
    have st2: "nl_sock_transact_step L_send ?k1 W s = Goto L_recv ?k2 W"
      by (simp only: transact_step_send[OF W] ok simp_thms if_False)
    have s2: "nl_sock_transact_from L_send ?k1 W s = nl_sock_transact_from L_recv ?k2 W s"
      by (subst nl_sock_transact_from.simps) (simp only: st2 transact_step.simps)
    have r2: "k_recv ?k2 = ?rest" by simp
    from Cons.IH[OF r2 ok' pre] obtain k' where
      t: "nl_sock_transact_from L_recv ?k2 W s = Return (?res, k', W)"
      and f1: "k_send k' = (?F ^^ count_list pre (NL_ERRNO ENOBUFS)) (k_send ?k2)"
      and f2: "k_recv k' = q"
      and f3: "k_sent k' = k_sent ?k2 @ replicate (count_list pre (NL_ERRNO ENOBUFS)) W"
      by blast
    have g1: "k_send k' = (?F ^^ count_list (e # pre) (NL_ERRNO ENOBUFS)) (k_send k)"
      using f1 NL_ERRNO x
        funpow_swap1[of ?F "count_list pre (NL_ERRNO ENOBUFS)" "k_send k"] by simp
    have g3: "k_sent k' = k_sent k @ replicate (count_list (e # pre) (NL_ERRNO ENOBUFS)) W"
      using f3 NL_ERRNO x by (simp add: replicate_app_Cons_same)
    have "nl_sock_transact_from L_recv k W s = Return (?res, k', W)"
      using s1 s2 t by simp
    then show ?thesis using g1 f2 g3 by blast
  next
    case (NL_DGRAM d')
    then have d': "NLMSG_OK d' (length d')" "nlmsg_seq d' \<noteq> Some s"
      using Cons.prems(3) by simp_all
    have q: "k_recv k = NL_DGRAM d' # ?rest" using Cons.prems(1) NL_DGRAM by simp
    let ?k1 = "k\<lparr>k_recv := ?rest\<rparr>"
    have s1: "nl_sock_transact_from L_recv k W s = nl_sock_transact_from L_recv ?k1 W s"
      by (subst nl_sock_transact_from.simps)
         (simp only: transact_step_recv_stray[OF q d'] transact_step.simps)
    have r1: "k_recv ?k1 = ?rest" by simp
    have ok1: "\<forall>e \<in> set (k_send ?k1). e = None \<or> e = Some EINTR"
      using Cons.prems(2) by simp
    from Cons.IH[OF r1 ok1 pre] obtain k' where
      t: "nl_sock_transact_from L_recv ?k1 W s = Return (?res, k', W)"
      and f1: "k_send k' = (?F ^^ count_list pre (NL_ERRNO ENOBUFS)) (k_send ?k1)"
      and f2: "k_recv k' = q"
      and f3: "k_sent k' = k_sent ?k1 @ replicate (count_list pre (NL_ERRNO ENOBUFS)) W"
      by blast
    have g1: "k_send k' = (?F ^^ count_list (e # pre) (NL_ERRNO ENOBUFS)) (k_send k)"
      using f1 NL_DGRAM by simp
    have g3: "k_sent k' = k_sent k @ replicate (count_list (e # pre) (NL_ERRNO ENOBUFS)) W"
      using f3 NL_DGRAM by simp
    have "nl_sock_transact_from L_recv k W s = Return (?res, k', W)"
      using s1 t by simp
    then show ?thesis using g1 f2 g3 by blast
  qed
qed

text \<open>What \<open>nl_sock_transact\<close> changes in the request: the length and the flags.\<close>

lemma nl_request_wire_rest:
  assumes "NLMSG_HDRLEN \<le> length request"
  shows "drop 8 (nl_request_wire request) = drop 8 request"
    and "nlmsg_type (nl_request_wire request) = nlmsg_type request"
proof -
  let ?f = "le_word (take 2 (drop 6 request)) OR NLM_F_ACK :: u16"
  let ?r1 = "store_bytes request 6 (le_bytes 2 ?f)"
  let ?n = "word_of_nat (length request) :: u32"
  have l1: "length ?r1 = length request"
    using assms by (simp add: length_store_bytes NLMSG_HDRLEN_def)
  have w: "nl_request_wire request = store_bytes ?r1 0 (le_bytes 4 ?n)"
    by (simp add: nl_request_wire_def store_u16_def store_u32_def)
  have "drop 8 (nl_request_wire request) = drop 8 ?r1"
    unfolding w using l1 assms by (simp add: store_bytes_def NLMSG_HDRLEN_def)
  also have "\<dots> = drop 8 request"
    using assms by (simp add: store_bytes_def NLMSG_HDRLEN_def)
  finally show "drop 8 (nl_request_wire request) = drop 8 request" .
  have "load_bytes (nl_request_wire request) 4 2 = load_bytes ?r1 4 2"
    unfolding w using assms l1 by (intro load_store_after) (simp_all add: NLMSG_HDRLEN_def)
  also have "\<dots> = load_bytes request 4 2"
    using assms by (intro load_store_before) (simp_all add: NLMSG_HDRLEN_def)
  finally show "nlmsg_type (nl_request_wire request) = nlmsg_type request"
    by (simp add: nlmsg_type_def load_u16_def)
qed

text \<open>A transaction that hands over a reply has sent the request at least once.\<close>

lemma nl_sock_transact_reply_sent:
  assumes hdr: "NLMSG_HDRLEN \<le> length request"
    and ret: "nl_sock_transact k request = Return ((rv, Some rep), k', request')"
  shows "rv = 0 \<and> nlmsg_seq rep = nlmsg_seq request \<and> request' = nl_request_wire request
       \<and> (\<exists>n. k_sent k' = k_sent k @ replicate (Suc n) (nl_request_wire request))"
proof -
  let ?W = "nl_request_wire request"
  note wf = nl_request_wire_fields[OF hdr]
  have hW: "NLMSG_HDRLEN \<le> length ?W" using wf(1) hdr by simp
  from nl_sock_transact_start[OF hdr, of k] obtain s r1 where
    s: "nlmsg_seq request = Some s" and h1: "NLMSG_HDRLEN \<le> length r1"
    and w1: "store_u32 r1 0 (word_of_nat (length r1)) = ?W"
    and t: "nl_sock_transact k request = nl_sock_transact_from L_send k r1 s"
    by blast
  have r: "nl_sock_transact_from L_send k r1 s = Return ((rv, Some rep), k', request')"
    using ret t by simp
  have a: "rv = 0 \<and> nlmsg_seq rep = Some s" by (rule transact_from_reply_seq[OF r])
  let ?k1 = "k\<lparr>k_send := snd (nl_send_loop (k_send k)), k_sent := k_sent k @ [?W]\<rparr>"
  have ok: "fst (nl_send_loop (k_send k)) = 0"
  proof (rule ccontr)
    assume "fst (nl_send_loop (k_send k)) \<noteq> 0"
    then show False
      using r by (subst (asm) nl_sock_transact_from.simps) (simp add: transact_step_send[OF h1 w1])
  qed
  then have "nl_sock_transact_from L_recv ?k1 ?W s = Return ((rv, Some rep), k', request')"
    using r by (subst (asm) nl_sock_transact_from.simps) (simp add: transact_step_send[OF h1 w1])
  from transact_from_sent[OF hW wf(5) this hW wf(5)]
  obtain n where "request' = ?W" "k_sent k' = k_sent ?k1 @ replicate n ?W" by auto
  then have "request' = ?W \<and> k_sent k' = k_sent k @ replicate (Suc n) ?W"
    by (simp add: replicate_app_Cons_same)
  then show ?thesis using a s by auto
qed

text \<open>
  Claim C3.  Let \<open>request\<close> hold a Netlink header, let the kernel let every \<open>send\<close>
  through (possibly after interruptions), and let the receive queue hold a valid reply
  \<open>d\<close> with the sequence number of the request after any number of \<open>ENOBUFS\<close> errors
  and of valid messages with other sequence numbers, in any order.  Then
  \<open>nl_sock_transact\<close> returns, and: (1) it has sent the request once at the start and
  once more for every \<open>ENOBUFS\<close>, and nothing else; (2) what it sends each time is the
  request with \<open>NLM_F_ACK\<close> set in the flags and the length finalised, all else as the
  caller gave it, and the request buffer holds those bytes afterwards; (3) the messages
  with other sequence numbers and the errors are off the queue, what followed \<open>d\<close> is
  still there; (4) the result is that of \<open>d\<close>: \<open>d\<close> itself with return value 0 if it
  is no \<open>NLMSG_ERROR\<close> message, its decoded error code and no buffer if it is.
  (5) Whatever the kernel does, a reply that \<open>nl_sock_transact\<close> hands over comes with
  return value 0, has the sequence number of the request, and was received after the
  request had been sent.
\<close>

theorem nl_sock_transact_reliable:
  assumes hdr: "NLMSG_HDRLEN \<le> length request"
    and sends: "\<forall>e \<in> set (k_send k). e = None \<or> e = Some EINTR"
    and queue: "k_recv k = pre @ NL_DGRAM d # q"
    and pre: "\<forall>e \<in> set pre.
                (case e of NL_ERRNO x \<Rightarrow> x = ENOBUFS
                 | NL_DGRAM d' \<Rightarrow> NLMSG_OK d' (length d') \<and> nlmsg_seq d' \<noteq> nlmsg_seq request)"
    and valid: "NLMSG_OK d (length d)"
    and match: "nlmsg_seq d = nlmsg_seq request"
  shows "(\<exists>c k'.
            nl_msg_nlmsgerr d = Return c
          \<and> nl_sock_transact k request =
              Return ((case c of None \<Rightarrow> (0, Some d)
                       | Some code \<Rightarrow> (if code \<noteq> EAGAIN then code else EPROTO, None)),
                      k', nl_request_wire request)
          \<and> k_sent k' = k_sent k
                @ replicate (Suc (count_list pre (NL_ERRNO ENOBUFS))) (nl_request_wire request)
          \<and> k_recv k' = q
          \<and> k_send k' = ((\<lambda>es. snd (nl_send_loop es)) ^^ Suc (count_list pre (NL_ERRNO ENOBUFS)))
                           (k_send k))
       \<and> nlmsg_flags (nl_request_wire request)
           = map_option (\<lambda>f. f OR NLM_F_ACK) (nlmsg_flags request)
       \<and> (\<exists>f. nlmsg_flags (nl_request_wire request) = Some f \<and> f AND NLM_F_ACK = NLM_F_ACK)
       \<and> nlmsg_len (nl_request_wire request) = Some (word_of_nat (length request))
       \<and> nlmsg_type (nl_request_wire request) = nlmsg_type request
       \<and> length (nl_request_wire request) = length request
       \<and> drop 8 (nl_request_wire request) = drop 8 request
       \<and> (\<forall>k2 rv rep k2' request'.
             nl_sock_transact k2 request = Return ((rv, Some rep), k2', request') \<longrightarrow>
               rv = 0 \<and> nlmsg_seq rep = nlmsg_seq request
             \<and> (\<exists>n. k_sent k2' = k_sent k2 @ replicate (Suc n) (nl_request_wire request)))"
proof -
  let ?W = "nl_request_wire request"
  let ?n = "count_list pre (NL_ERRNO ENOBUFS)"
  let ?F = "\<lambda>es. snd (nl_send_loop es)"
  note wf = nl_request_wire_fields[OF hdr]
  have hW: "NLMSG_HDRLEN \<le> length ?W" using wf(1) hdr by simp
  from nl_send_loop_ok[OF sends]
  have ok: "fst (nl_send_loop (k_send k)) = 0"
    and ok1: "\<forall>e \<in> set (?F (k_send k)). e = None \<or> e = Some EINTR" by simp_all
  let ?k1 = "k\<lparr>k_send := ?F (k_send k), k_sent := k_sent k @ [?W]\<rparr>"
  from nl_sock_transact_sent[OF hdr ok] obtain s where
    s: "nlmsg_seq request = Some s"
    and a: "nl_sock_transact k request = nl_sock_transact_from L_recv ?k1 ?W s"
    by blast
  from nl_msg_nlmsgerr_Return[OF valid] obtain c where c: "nl_msg_nlmsgerr d = Return c" ..
  let ?res = "(case c of None \<Rightarrow> (0, Some d)
               | Some code \<Rightarrow> (if code \<noteq> EAGAIN then code else EPROTO, None))"
  have q1: "k_recv ?k1 = pre @ NL_DGRAM d # q" using queue by simp
  have s1: "\<forall>e \<in> set (k_send ?k1). e = None \<or> e = Some EINTR" using ok1 by simp
  have p1: "\<forall>e \<in> set pre. (case e of NL_ERRNO x \<Rightarrow> x = ENOBUFS
              | NL_DGRAM d' \<Rightarrow> NLMSG_OK d' (length d') \<and> nlmsg_seq d' \<noteq> Some s)"
    using pre unfolding s .
  have m1: "nlmsg_seq d = Some s" using match s by simp
  from transact_from_trace[OF hW wf(5) valid m1 c q1 s1 p1] obtain k' where
    t: "nl_sock_transact_from L_recv ?k1 ?W s = Return (?res, k', ?W)"
    and f1: "k_send k' = (?F ^^ ?n) (k_send ?k1)"
    and f2: "k_recv k' = q"
    and f3: "k_sent k' = k_sent ?k1 @ replicate ?n ?W"
    by blast
  have g0: "nl_sock_transact k request = Return (?res, k', ?W)" using a t by simp
  have g1: "k_send k' = (?F ^^ Suc ?n) (k_send k)"
    using f1 funpow_swap1[of ?F ?n "k_send k"] by simp
  have g3: "k_sent k' = k_sent k @ replicate (Suc ?n) ?W"
    using f3 by (simp add: replicate_app_Cons_same)
  have main: "\<exists>c k'. nl_msg_nlmsgerr d = Return c
          \<and> nl_sock_transact k request =
              Return ((case c of None \<Rightarrow> (0, Some d)
                       | Some code \<Rightarrow> (if code \<noteq> EAGAIN then code else EPROTO, None)),
                      k', ?W)
          \<and> k_sent k' = k_sent k @ replicate (Suc ?n) ?W
          \<and> k_recv k' = q
          \<and> k_send k' = (?F ^^ Suc ?n) (k_send k)"
    using c g0 g3 f2 g1 by blast
  have fl0: "nlmsg_flags request = Some (le_word (take 2 (drop 6 request)))"
    using hdr by (simp add: nlmsg_flags_def load_u16_def load_bytes_def NLMSG_HDRLEN_def)
  have fl: "nlmsg_flags ?W = map_option (\<lambda>f. f OR NLM_F_ACK) (nlmsg_flags request)"
    by (simp add: wf(3) fl0)
  have ack: "(le_word (take 2 (drop 6 request)) OR NLM_F_ACK) AND NLM_F_ACK = NLM_F_ACK"
    by (rule bit_word_eqI) (auto simp: bit_simps)
  have fa: "\<exists>f. nlmsg_flags ?W = Some f \<and> f AND NLM_F_ACK = NLM_F_ACK"
    using wf(3) ack by blast
  have safe: "\<forall>k2 rv rep k2' request'.
             nl_sock_transact k2 request = Return ((rv, Some rep), k2', request') \<longrightarrow>
               rv = 0 \<and> nlmsg_seq rep = nlmsg_seq request
             \<and> (\<exists>n. k_sent k2' = k_sent k2 @ replicate (Suc n) ?W)"
    using nl_sock_transact_reply_sent[OF hdr] by blast
  show ?thesis
    by (intro conjI main fl fa wf(4) nl_request_wire_rest(2)[OF hdr] wf(1)
              nl_request_wire_rest(1)[OF hdr] safe)
qed

theorem nl_sock_transact_reliable_witness:
  "\<exists>k'. nl_sock_transact
           \<lparr>k_send = [Some EINTR, None],
            k_recv = [NL_ERRNO ENOBUFS,
                      NL_DGRAM [16, 0, 0, 0, 16, 0, 0, 0, 4, 0, 0, 0, 0, 0, 0, 0],
                      NL_DGRAM [20, 0, 0, 0, 16, 0, 0, 0, 5, 0, 0, 0, 0, 0, 0, 0, 1, 2, 3, 4]],
            k_sent = []\<rparr>
           [16, 0, 0, 0, 16, 0, 1, 0, 5, 0, 0, 0, 0, 0, 0, 0 :: u8]
         = Return ((0, Some [20, 0, 0, 0, 16, 0, 0, 0, 5, 0, 0, 0, 0, 0, 0, 0, 1, 2, 3, 4]),
                   k', nl_request_wire [16, 0, 0, 0, 16, 0, 1, 0, 5, 0, 0, 0, 0, 0, 0, 0])
       \<and> k_sent k' = [nl_request_wire [16, 0, 0, 0, 16, 0, 1, 0, 5, 0, 0, 0, 0, 0, 0, 0],
                      nl_request_wire [16, 0, 0, 0, 16, 0, 1, 0, 5, 0, 0, 0, 0, 0, 0, 0]]
       \<and> k_recv k' = []
       \<and> nlmsg_flags (nl_request_wire [16, 0, 0, 0, 16, 0, 1, 0, 5, 0, 0, 0, 0, 0, 0, 0]) = Some 5"
proof -
  let ?r = "[16, 0, 0, 0, 16, 0, 1, 0, 5, 0, 0, 0, 0, 0, 0, 0 :: u8]"
  let ?x = "[16, 0, 0, 0, 16, 0, 0, 0, 4, 0, 0, 0, 0, 0, 0, 0 :: u8]"
  let ?d = "[20, 0, 0, 0, 16, 0, 0, 0, 5, 0, 0, 0, 0, 0, 0, 0, 1, 2, 3, 4 :: u8]"
  let ?pre = "[NL_ERRNO ENOBUFS, NL_DGRAM ?x]"
  let ?k = "\<lparr>k_send = [Some EINTR, None], k_recv = [NL_ERRNO ENOBUFS, NL_DGRAM ?x, NL_DGRAM ?d],
            k_sent = []\<rparr>"
  have hdr: "NLMSG_HDRLEN \<le> length ?r" by (simp add: NLMSG_HDRLEN_def)
  have sends: "\<forall>e \<in> set (k_send ?k). e = None \<or> e = Some EINTR" by simp
  have queue: "k_recv ?k = ?pre @ NL_DGRAM ?d # []" by simp
  have x1: "NLMSG_OK ?x (length ?x)" by code_simp
  have x2: "nlmsg_seq ?x \<noteq> nlmsg_seq ?r" by code_simp
  have pre: "\<forall>e \<in> set ?pre.
                (case e of NL_ERRNO x \<Rightarrow> x = ENOBUFS
                 | NL_DGRAM d' \<Rightarrow> NLMSG_OK d' (length d') \<and> nlmsg_seq d' \<noteq> nlmsg_seq ?r)"
    using x1 x2 by simp
  have valid: "NLMSG_OK ?d (length ?d)" by code_simp
  have match: "nlmsg_seq ?d = nlmsg_seq ?r" by code_simp
  have ne: "nl_msg_nlmsgerr ?d = Return None" by code_simp
  have fl: "nlmsg_flags ?r = Some 1" by code_simp
  have n: "count_list ?pre (NL_ERRNO ENOBUFS) = 1" by simp
  note th = nl_sock_transact_reliable[OF hdr sends queue pre valid match]
  from th obtain c k' where
    c: "nl_msg_nlmsgerr ?d = Return c"
    and t: "nl_sock_transact ?k ?r =
              Return ((case c of None \<Rightarrow> (0, Some ?d)
                       | Some code \<Rightarrow> (if code \<noteq> EAGAIN then code else EPROTO, None)),
                      k', nl_request_wire ?r)"
    and s: "k_sent k' = k_sent ?k
                @ replicate (Suc (count_list ?pre (NL_ERRNO ENOBUFS))) (nl_request_wire ?r)"
    and q: "k_recv k' = []"
    by (elim conjE exE) (rule that)
  from th have f: "nlmsg_flags (nl_request_wire ?r)
                     = map_option (\<lambda>f. f OR NLM_F_ACK) (nlmsg_flags ?r)"
    by (elim conjE)
  have c0: "c = None" using c ne by simp
  have t': "nl_sock_transact ?k ?r = Return ((0, Some ?d), k', nl_request_wire ?r)"
    using t unfolding c0 by simp
  have s': "k_sent k' = [nl_request_wire ?r, nl_request_wire ?r]"
    using s unfolding n by simp
  have f': "nlmsg_flags (nl_request_wire ?r) = Some 5"
    using f unfolding fl by (simp add: NLM_F_ACK_def)
  show ?thesis
    by (rule exI[of _ k']) (intro conjI t' s' q f')
qed
text \<open>
  Claim C8.  Let the first \<open>send\<close> of a transaction succeed, and let the receive queue
  hold, after any number of valid messages with other sequence numbers, a valid message
  with the sequence number of the request, of type \<open>NLMSG_ERROR\<close>, that holds a
  \<open>struct nlmsgerr\<close> whose \<open>error\<close> field is 0.  Then \<open>nl_sock_transact\<close> returns 0
  and \<open>*replyp\<close> is null; the request has been sent once, and the messages up to the
  acknowledgement are off the queue.
\<close>

theorem nl_sock_transact_ack_null_reply:
  assumes hdr: "NLMSG_HDRLEN \<le> length request"
    and ok: "fst (nl_send_loop (k_send k)) = 0"
    and q: "k_recv k = map NL_DGRAM strays @ NL_DGRAM d # q"
    and strays: "\<forall>d' \<in> set strays. NLMSG_OK d' (length d') \<and> nlmsg_seq d' \<noteq> nlmsg_seq request"
    and v: "NLMSG_OK d (length d)"
    and sq: "nlmsg_seq d = nlmsg_seq request"
    and ty: "nlmsg_type d = Some NLMSG_ERROR"
    and len: "NLMSG_HDRLEN + NLMSGERR_LEN \<le> length d"
    and code: "load_u32 d NLMSG_HDRLEN = Some 0"
  shows "nl_sock_transact k request =
           Return ((0, None),
                   k\<lparr>k_send := snd (nl_send_loop (k_send k)), k_recv := q,
                     k_sent := k_sent k @ [nl_request_wire request]\<rparr>,
                   nl_request_wire request)"
proof -
  let ?W = "nl_request_wire request"
  let ?k1 = "k\<lparr>k_send := snd (nl_send_loop (k_send k)), k_sent := k_sent k @ [?W]\<rparr>"
  from nl_sock_transact_sent[OF hdr ok] obtain s where
    s: "nlmsg_seq request = Some s"
    and a: "nl_sock_transact k request = nl_sock_transact_from L_recv ?k1 ?W s"
    by blast
  have q1: "k_recv ?k1 = map NL_DGRAM strays @ NL_DGRAM d # q" using q by simp
  have st: "\<forall>d' \<in> set strays. NLMSG_OK d' (length d') \<and> nlmsg_seq d' \<noteq> Some s"
    using strays s by simp
  have b: "nl_sock_transact_from L_recv ?k1 ?W s
             = nl_sock_transact_from L_recv (?k1\<lparr>k_recv := NL_DGRAM d # q\<rparr>) ?W s"
    by (rule transact_from_strays[OF q1 st])
  have "nl_sock_transact_step L_recv (?k1\<lparr>k_recv := NL_DGRAM d # q\<rparr>) ?W s
          = Fin (Return ((0, None), ?k1\<lparr>k_recv := NL_DGRAM d # q\<rparr>\<lparr>k_recv := q\<rparr>, ?W))"
    using v sq s ty len code by (intro transact_step_recv_ack[of _ d]) simp_all
  then have c: "nl_sock_transact_from L_recv (?k1\<lparr>k_recv := NL_DGRAM d # q\<rparr>) ?W s
                  = Return ((0, None), ?k1\<lparr>k_recv := NL_DGRAM d # q\<rparr>\<lparr>k_recv := q\<rparr>, ?W)"
    by (subst nl_sock_transact_from.simps) simp
  show ?thesis using a b c by simp
qed

theorem nl_sock_transact_ack_null_reply_witness:
  "nl_sock_transact
     \<lparr>k_send = [],
      k_recv = [NL_DGRAM [16, 0, 0, 0, 16, 0, 0, 0, 4, 0, 0, 0, 0, 0, 0, 0],
                NL_DGRAM [36, 0, 0, 0, 2, 0, 0, 0, 5, 0, 0, 0, 0, 0, 0, 0,
                          0, 0, 0, 0,
                          16, 0, 0, 0, 16, 0, 5, 0, 5, 0, 0, 0, 0, 0, 0, 0]],
      k_sent = []\<rparr>
     [16, 0, 0, 0, 16, 0, 1, 0, 5, 0, 0, 0, 0, 0, 0, 0 :: u8]
   = Return ((0, None),
             \<lparr>k_send = [], k_recv = [],
              k_sent = [nl_request_wire [16, 0, 0, 0, 16, 0, 1, 0, 5, 0, 0, 0, 0, 0, 0, 0 :: u8]]\<rparr>,
             nl_request_wire [16, 0, 0, 0, 16, 0, 1, 0, 5, 0, 0, 0, 0, 0, 0, 0 :: u8])"
proof -
  let ?r = "[16, 0, 0, 0, 16, 0, 1, 0, 5, 0, 0, 0, 0, 0, 0, 0 :: u8]"
  let ?x = "[16, 0, 0, 0, 16, 0, 0, 0, 4, 0, 0, 0, 0, 0, 0, 0 :: u8]"
  let ?d = "[36, 0, 0, 0, 2, 0, 0, 0, 5, 0, 0, 0, 0, 0, 0, 0,
             0, 0, 0, 0,
             16, 0, 0, 0, 16, 0, 5, 0, 5, 0, 0, 0, 0, 0, 0, 0 :: u8]"
  let ?k = "\<lparr>k_send = [], k_recv = [NL_DGRAM ?x, NL_DGRAM ?d], k_sent = []\<rparr>"
  have hdr: "NLMSG_HDRLEN \<le> length ?r" by (simp add: NLMSG_HDRLEN_def)
  have ok: "fst (nl_send_loop (k_send ?k)) = 0" by simp
  have q: "k_recv ?k = map NL_DGRAM [?x] @ NL_DGRAM ?d # []" by simp
  have x1: "NLMSG_OK ?x (length ?x)" by code_simp
  have x2: "nlmsg_seq ?x \<noteq> nlmsg_seq ?r" by code_simp
  have strays: "\<forall>d' \<in> set [?x]. NLMSG_OK d' (length d') \<and> nlmsg_seq d' \<noteq> nlmsg_seq ?r"
    using x1 x2 by simp
  have v: "NLMSG_OK ?d (length ?d)" by code_simp
  have sq: "nlmsg_seq ?d = nlmsg_seq ?r" by code_simp
  have ty: "nlmsg_type ?d = Some NLMSG_ERROR" by code_simp
  have len: "NLMSG_HDRLEN + NLMSGERR_LEN \<le> length ?d"
    by (simp add: NLMSG_HDRLEN_def NLMSGERR_LEN_def)
  have code: "load_u32 ?d NLMSG_HDRLEN = Some 0" by code_simp
  from nl_sock_transact_ack_null_reply[OF hdr ok q strays v sq ty len code]
  show ?thesis by simp
qed



section \<open>Allocation failure: proofs\<close>










end
